theory Spec2Isabelle
  imports Complex_Main
begin

section \<open>Data model of the relay (server.js)\<close>

text \<open>
  The model follows the latest of the versions of server.js that the source file holds,
  the one with the rate limiter and with the close handler that stores the filtered
  bucket; the earlier drafts before it filter the bucket without storing the result.
\<close>

text \<open>
  A socket object of the \<open>ws\<close> library, with the fields server.js reads and writes.
  A server-side socket is OPEN from the moment the library emits \<open>connection\<close>, so the
  CONNECTING state does not occur. \<open>deviceId\<close> and \<open>productId\<close> are \<open>None\<close>
  while the JavaScript field is undefined. \<open>listening\<close> records whether the handlers for
  \<open>pong\<close>, \<open>message\<close>, \<open>close\<close> and \<open>error\<close> were registered: the connection
  handler returns before registering them when it rejects the request, and an exception
  leaves it before them when the URL of the request does not parse.
\<close>

datatype readyState = OPEN | CLOSING | CLOSED

record ws =
  clientId :: string
  isAlive :: bool
  isTerminating :: bool
  messageCount :: nat
  messageWindow :: int
  deviceId :: "string option"
  productId :: "string option"
  readyState :: readyState
  listening :: bool

text \<open>
  The three module-level tables, the library's set \<open>wss.clients\<close> (in insertion order,
  the order \<open>forEach\<close> visits it) and the store of socket objects. \<open>clients\<close> holds
  references to socket objects, so a change of a socket's field is seen through every table.
  The keys of \<open>clients\<close> and the members of the buckets are results of \<open>randomUUID()\<close>,
  so a lookup in the plain object \<open>clients\<close> never finds a property of its prototype.
  A bucket is an array, as in the code.
\<close>

record relay =
  clients :: "string \<rightharpoonup> nat"
  deviceIdClients :: "string \<rightharpoonup> string list"
  productIdClients :: "string \<rightharpoonup> string list"
  wss_clients :: "nat list"
  heap :: "nat \<rightharpoonup> ws"

definition initial :: relay where
  "initial = \<lparr>clients = Map.empty, deviceIdClients = Map.empty, productIdClients = Map.empty,
              wss_clients = [], heap = Map.empty\<rparr>"

text \<open>
  The value \<open>JSON.parse\<close> returns; an object is given by its own properties, each key
  once. Of a number only whether it is zero is observed.
\<close>

datatype json = JNull | JBool bool | JNum real | JStr string | JArr "json list"
  | JObj "(string \<times> json) list"

datatype error = SyntaxError | TypeError | Error string

text \<open>
  What the handlers ask of the library and the console. \<open>Send r m\<close> stands for
  \<open>targetWs.send(JSON.stringify(m))\<close> on socket \<open>r\<close>: the frame is the serialisation of \<open>m\<close>.
  \<open>Uncaught e\<close> is an exception that leaves a handler: no code of server.js catches it.
\<close>

datatype effect = Send nat json | Close nat nat string | Terminate nat | Ping nat
  | ConsoleError string "error option" | Uncaught error

section \<open>JavaScript primitives used by the handlers\<close>

text \<open>Truthiness of \<open>url.searchParams.get(...)\<close>: null and the empty string are falsy.\<close>

fun truthy :: "string option \<Rightarrow> bool" where
  "truthy None = False"
| "truthy (Some v) = (v \<noteq> [])"

text \<open>
  \<open>message.k\<close> for the keys \<open>target\<close>, \<open>deviceId\<close> and \<open>productId\<close>: reading a property
  of null throws a TypeError, an object yields its own property, every other value yields
  undefined (\<open>None\<close>).
\<close>

fun get_prop :: "json \<Rightarrow> string \<Rightarrow> error + json option" where
  "get_prop JNull k = Inl TypeError"
| "get_prop (JObj kvs) k = Inr (map_of kvs k)"
| "get_prop (JBool b) k = Inr None"
| "get_prop (JNum n) k = Inr None"
| "get_prop (JStr v) k = Inr None"
| "get_prop (JArr vs) k = Inr None"

text \<open>\<open>!v\<close> for a property value.\<close>

fun falsy :: "json option \<Rightarrow> bool" where
  "falsy None = True"
| "falsy (Some JNull) = True"
| "falsy (Some (JBool b)) = (\<not> b)"
| "falsy (Some (JNum n)) = (n = 0)"
| "falsy (Some (JStr v)) = (v = [])"
| "falsy (Some (JArr vs)) = False"
| "falsy (Some (JObj kvs)) = False"

text \<open>\<open>map.get(k) || []\<close> for a string \<open>k\<close>: the stored array, or a new empty one.\<close>

definition bucket :: "(string \<rightharpoonup> string list) \<Rightarrow> string \<Rightarrow> string list" where
  "bucket m k = (case m k of None \<Rightarrow> [] | Some ids \<Rightarrow> ids)"

text \<open>
  \<open>map.get(v) || []\<close> for a property value \<open>v\<close>: the keys of the two Maps are strings
  (they come from the query string), so only a string is found.
\<close>

fun get_or_empty :: "(string \<rightharpoonup> string list) \<Rightarrow> json option \<Rightarrow> string list" where
  "get_or_empty m (Some (JStr k)) = bucket m k"
| "get_or_empty m v = []"

text \<open>\<open>ws.close(code, reason)\<close> and \<open>ws.terminate()\<close> of the library, as far as the state goes.\<close>

definition ws_close :: "relay \<Rightarrow> nat \<Rightarrow> relay" where
  "ws_close s r = (case heap s r of
       None \<Rightarrow> s
     | Some w \<Rightarrow> if readyState w = OPEN
                 then s\<lparr>heap := (heap s)(r \<mapsto> w\<lparr>readyState := CLOSING\<rparr>)\<rparr> else s)"

definition ws_terminate :: "relay \<Rightarrow> nat \<Rightarrow> relay" where
  "ws_terminate s r = (case heap s r of
       None \<Rightarrow> s
     | Some w \<Rightarrow> if readyState w = CLOSED then s
                 else s\<lparr>heap := (heap s)(r \<mapsto> w\<lparr>readyState := CLOSING\<rparr>)\<rparr>)"

section \<open>The handlers\<close>

subsection \<open>\<open>wss.on("connection")\<close>\<close>

text \<open>
  \<open>r\<close> is the new socket object, which the library has put into \<open>wss.clients\<close>;
  \<open>uuid\<close> is the result of \<open>randomUUID()\<close> and \<open>now\<close> of \<open>Date.now()\<close>.
  \<open>url\<close> is the outcome of \<open>new URL(req.url, `http://${req.headers.host}`)\<close>:
  \<open>None\<close> when the constructor throws its TypeError, as it does for the request targets
  \<open>//\<close> and \<open>//?device-id=X\<close>, whose host is empty; else the values that
  \<open>url.searchParams.get\<close> returns for \<open>device-id\<close> and for \<open>product-id\<close>. The five
  fields of the socket are set before the URL is parsed. When the constructor throws, the
  exception leaves the listener: nothing is closed, nothing is registered and no handler is
  attached. The \<open>try\<close> of \<open>initWebSocketServer\<close> has been left by then, so that
  nothing catches the exception. The model keeps the state that the listener leaves behind.
\<close>

definition on_connection ::
  "relay \<Rightarrow> nat \<Rightarrow> string \<Rightarrow> int \<Rightarrow> (string option \<times> string option) option \<Rightarrow>
   relay \<times> effect list" where
  "on_connection s r uuid now url =
    (let w = \<lparr>clientId = uuid, isAlive = True, isTerminating = False, messageCount = 0,
              messageWindow = now, deviceId = None, productId = None, readyState = OPEN,
              listening = False\<rparr>;
         s0 = s\<lparr>wss_clients := wss_clients s @ [r], heap := (heap s)(r \<mapsto> w)\<rparr>
     in case url of
          None \<Rightarrow> (s0, [Uncaught TypeError])
        | Some (device_id, product_id) \<Rightarrow>
           (if \<not> truthy device_id \<and> \<not> truthy product_id
            then (ws_close s0 r, [Close r 1008 ''Missing device-id or product-id''])
            else if truthy device_id \<and> truthy product_id
            then (ws_close s0 r, [Close r 1008 ''Can't provide both device-id and product-id''])
            else
              let s1 = s0\<lparr>clients := (clients s0)(uuid \<mapsto> r)\<rparr>;
                  s2 = (if truthy device_id
                        then s1\<lparr>deviceIdClients := (deviceIdClients s1)(the device_id \<mapsto>
                               bucket (deviceIdClients s1) (the device_id) @ [uuid])\<rparr>
                        else s1);
                  w1 = (if truthy device_id then w\<lparr>deviceId := device_id\<rparr> else w);
                  s3 = (if truthy product_id
                        then s2\<lparr>productIdClients := (productIdClients s2)(the product_id \<mapsto>
                               bucket (productIdClients s2) (the product_id) @ [uuid])\<rparr>
                        else s2);
                  w2 = (if truthy product_id then w1\<lparr>productId := product_id\<rparr> else w1)
              in (s3\<lparr>heap := (heap s3)(r \<mapsto> w2\<lparr>listening := True\<rparr>)\<rparr>, [])))"

subsection \<open>\<open>ws.on("pong")\<close>\<close>

definition on_pong :: "relay \<Rightarrow> nat \<Rightarrow> relay" where
  "on_pong s r = (case heap s r of
       None \<Rightarrow> s
     | Some w \<Rightarrow> s\<lparr>heap := (heap s)(r \<mapsto> w\<lparr>isAlive := True\<rparr>)\<rparr>)"

subsection \<open>\<open>ws.on("message")\<close>\<close>

text \<open>The counter update at the head of the handler.\<close>

definition rate_window :: "ws \<Rightarrow> int \<Rightarrow> ws" where
  "rate_window w now =
    (let w1 = (if now - messageWindow w > 1000 then w\<lparr>messageCount := 0, messageWindow := now\<rparr>
               else w)
     in w1\<lparr>messageCount := messageCount w1 + 1\<rparr>)"

text \<open>The \<open>forEach\<close> over the resolved client ids.\<close>

fun deliver :: "relay \<Rightarrow> json \<Rightarrow> string list \<Rightarrow> effect list" where
  "deliver s message [] = []"
| "deliver s message (targetClientId # rest) =
    (case clients s targetClientId of
       None \<Rightarrow> deliver s message rest
     | Some t \<Rightarrow>
        (case heap s t of
           None \<Rightarrow> deliver s message rest
         | Some targetWs \<Rightarrow>
             if readyState targetWs = OPEN then Send t message # deliver s message rest
             else deliver s message rest))"

text \<open>
  The body of the \<open>try\<close> block; \<open>parsed\<close> is the result of \<open>JSON.parse(msg)\<close>, \<open>None\<close>
  when it throws. \<open>Inl\<close> is the exception that reaches the \<open>catch\<close>.
\<close>

definition route :: "relay \<Rightarrow> json option \<Rightarrow> error + effect list" where
  "route s parsed =
    (case parsed of
       None \<Rightarrow> Inl SyntaxError
     | Some message \<Rightarrow>
        (case get_prop message ''target'' of
           Inl e \<Rightarrow> Inl e
         | Inr target \<Rightarrow>
            if target \<noteq> Some (JStr ''device'') \<and> target \<noteq> Some (JStr ''product'')
            then Inl (Error ''Message target is invalid!'')
            else if target = Some (JStr ''device'') then
              (case get_prop message ''deviceId'' of
                 Inl e \<Rightarrow> Inl e
               | Inr d \<Rightarrow>
                  if falsy d then Inl (Error ''Message lacks device ID!'')
                  else Inr (deliver s message (get_or_empty (deviceIdClients s) d)))
            else if target = Some (JStr ''product'') then
              (case get_prop message ''productId'' of
                 Inl e \<Rightarrow> Inl e
               | Inr p \<Rightarrow>
                  if falsy p then Inl (Error ''Message lacks product ID!'')
                  else Inr (deliver s message (get_or_empty (productIdClients s) p)))
            else Inr []))"

text \<open>The \<open>try\<close> with its \<open>catch\<close>, which logs the exception and goes on.\<close>

definition try_route :: "relay \<Rightarrow> json option \<Rightarrow> effect list" where
  "try_route s parsed =
    (case route s parsed of
       Inl e \<Rightarrow> [ConsoleError ''Error occured in WebSocket message callback:'' (Some e)]
     | Inr sent \<Rightarrow> sent)"

definition on_message :: "relay \<Rightarrow> nat \<Rightarrow> int \<Rightarrow> json option \<Rightarrow> relay \<times> effect list" where
  "on_message s r now parsed =
    (case heap s r of
       None \<Rightarrow> (s, [])
     | Some w \<Rightarrow>
        let w1 = rate_window w now in
        if messageCount w1 > 25 then
          (if \<not> isTerminating w1
           then (ws_close (s\<lparr>heap := (heap s)(r \<mapsto> w1\<lparr>isTerminating := True\<rparr>)\<rparr>) r,
                 [Close r 1008 ''Rate limit exceeded'',
                  ConsoleError (''WebSocket connection '' @ clientId w1 @
                                '' closed due to rate limit exceeded.'') None])
           else (s\<lparr>heap := (heap s)(r \<mapsto> w1)\<rparr>, []))
        else
          let s1 = s\<lparr>heap := (heap s)(r \<mapsto> w1)\<rparr> in (s1, try_route s1 parsed))"

subsection \<open>\<open>ws.on("close")\<close>\<close>

text \<open>One of the two symmetric halves of the handler: filter the bucket, delete or store it.\<close>

definition remove_from :: "(string \<rightharpoonup> string list) \<Rightarrow> string \<Rightarrow> string \<Rightarrow> (string \<rightharpoonup> string list)" where
  "remove_from m k cid =
    (let remaining = filter (\<lambda>e. e \<noteq> cid) (bucket m k)
     in if length remaining = 0 then m(k := None) else m(k \<mapsto> remaining))"

definition on_close :: "relay \<Rightarrow> nat \<Rightarrow> relay" where
  "on_close s r =
    (case heap s r of
       None \<Rightarrow> s
     | Some w \<Rightarrow>
        let s1 = s\<lparr>clients := (clients s)(clientId w := None)\<rparr>;
            s2 = (if truthy (productId w)
                  then s1\<lparr>productIdClients :=
                           remove_from (productIdClients s1) (the (productId w)) (clientId w)\<rparr>
                  else s1)
        in (if truthy (deviceId w)
            then s2\<lparr>deviceIdClients :=
                     remove_from (deviceIdClients s2) (the (deviceId w)) (clientId w)\<rparr>
            else s2))"

subsection \<open>The heartbeat\<close>

definition heartbeat_each :: "relay \<Rightarrow> nat \<Rightarrow> relay \<times> effect list" where
  "heartbeat_each s r =
    (case heap s r of
       None \<Rightarrow> (s, [])
     | Some w \<Rightarrow>
        if \<not> isAlive w then (ws_terminate s r, [Terminate r])
        else (s\<lparr>heap := (heap s)(r \<mapsto> w\<lparr>isAlive := False\<rparr>)\<rparr>, [Ping r]))"

fun heartbeat_loop :: "relay \<Rightarrow> nat list \<Rightarrow> relay \<times> effect list" where
  "heartbeat_loop s [] = (s, [])"
| "heartbeat_loop s (r # rs) =
    (let (s1, e1) = heartbeat_each s r;
         (s2, e2) = heartbeat_loop s1 rs
     in (s2, e1 @ e2))"

definition heartbeat :: "relay \<Rightarrow> relay \<times> effect list" where
  "heartbeat s = heartbeat_loop s (wss_clients s)"

text \<open>The period given to \<open>setInterval\<close>, in milliseconds.\<close>

definition heartbeat_ms :: int where
  "heartbeat_ms = 15000"

section \<open>Events\<close>

text \<open>
  The library's part of a close: the socket becomes CLOSED, the server's own listener
  removes it from \<open>wss.clients\<close>, and the handler of server.js runs if it was registered.
\<close>

definition emit_close :: "relay \<Rightarrow> nat \<Rightarrow> relay" where
  "emit_close s r =
    (case heap s r of
       None \<Rightarrow> s
     | Some w \<Rightarrow>
        let s1 = s\<lparr>wss_clients := removeAll r (wss_clients s),
                   heap := (heap s)(r \<mapsto> w\<lparr>readyState := CLOSED\<rparr>)\<rparr>
        in if listening w then on_close s1 r else s1)"

definition has_listeners :: "relay \<Rightarrow> nat \<Rightarrow> bool" where
  "has_listeners s r = (case heap s r of None \<Rightarrow> False | Some w \<Rightarrow> listening w)"

datatype event =
    Connection nat string int "(string option \<times> string option) option"
  | Message nat int "json option"
  | Pong nat
  | CloseEvent nat
  | ErrorEvent nat
  | Tick

fun step :: "relay \<Rightarrow> event \<Rightarrow> relay \<times> effect list" where
  "step s (Connection r uuid now url) = on_connection s r uuid now url"
| "step s (Message r now parsed) =
     (if has_listeners s r then on_message s r now parsed else (s, []))"
| "step s (Pong r) = (if has_listeners s r then (on_pong s r, []) else (s, []))"
| "step s (CloseEvent r) = (emit_close s r, [])"
| "step s (ErrorEvent r) =
     (if has_listeners s r
      then (s, [ConsoleError (''Error in WebSocket client '' @
                  (case heap s r of None \<Rightarrow> [] | Some w \<Rightarrow> clientId w) @ '':'') None])
      else (s, []))"
| "step s Tick = heartbeat s"

fun run :: "relay \<Rightarrow> event list \<Rightarrow> relay \<times> effect list" where
  "run s [] = (s, [])"
| "run s (e # es) =
    (let (s1, out1) = step s e;
         (s2, out2) = run s1 es
     in (s2, out1 @ out2))"

text \<open>
  What the environment guarantees of an event: a new socket is a new object and
  \<open>randomUUID()\<close> returns an id no socket has had; the library emits the events of a socket
  only until its close event.
\<close>

fun enabled :: "relay \<Rightarrow> event \<Rightarrow> bool" where
  "enabled s (Connection r uuid now url) =
     (heap s r = None \<and> (\<forall>r' w. heap s r' = Some w \<longrightarrow> clientId w \<noteq> uuid))"
| "enabled s (Message r now parsed) = (r \<in> set (wss_clients s))"
| "enabled s (Pong r) = (r \<in> set (wss_clients s))"
| "enabled s (CloseEvent r) = (r \<in> set (wss_clients s))"
| "enabled s (ErrorEvent r) = (r \<in> set (wss_clients s) \<and> has_listeners s r)"
| "enabled s Tick = True"

inductive reachable :: "relay \<Rightarrow> bool" where
  reachable_initial: "reachable initial"
| reachable_step: "reachable s \<Longrightarrow> enabled s e \<Longrightarrow> reachable (fst (step s e))"

section \<open>The firmware endpoint\<close>

text \<open>
  An entry of \<open>response.Contents\<close> of the object listing, with the two fields that
  matter here.
\<close>

record s3_object =
  Key :: string
  LastModified :: int

text \<open>config.js.\<close>

definition s3Region :: string where
  "s3Region = ''fra1''"

definition s3Domain :: string where
  "s3Domain = ''digitaloceanspaces.com''"

text \<open>An environment variable inside a template literal: undefined prints as "undefined".\<close>

definition env_string :: "string option \<Rightarrow> string" where
  "env_string v = (case v of None \<Rightarrow> ''undefined'' | Some x \<Rightarrow> x)"

text \<open>s3Client.js; \<open>bucket_name\<close> is \<open>process.env.S3_BUCKET_NAME\<close>.\<close>

definition getPublicObjectURL :: "string option \<Rightarrow> string \<Rightarrow> string" where
  "getPublicObjectURL bucket_name key =
     ''https://'' @ env_string bucket_name @ ''.'' @ s3Region @ ''.'' @ s3Domain @ ''/'' @ key"

text \<open>\<open>key.endsWith('/')\<close>.\<close>

definition ends_with_slash :: "string \<Rightarrow> bool" where
  "ends_with_slash k = (k \<noteq> [] \<and> last k = CHR ''/'')"

text \<open>The class \<open>\d\<close> of a regular expression without the unicode flag.\<close>

definition is_digit :: "char \<Rightarrow> bool" where
  "is_digit c = (c \<in> set ''0123456789'')"

text \<open>
  A match of \<open>/(\d+\.\d+\.\d+)/\<close> that starts at the head of the string. Each \<open>\d+\<close> is
  greedy and is followed by a character that is no digit, so only the longest run of
  digits can match.
\<close>

definition match_here :: "string \<Rightarrow> string option" where
  "match_here s =
    (let a = takeWhile is_digit s in
     if a = [] then None
     else (case dropWhile is_digit s of
             [] \<Rightarrow> None
           | c1 # r2 \<Rightarrow>
              if c1 \<noteq> CHR ''.'' then None
              else (let b = takeWhile is_digit r2 in
                    if b = [] then None
                    else (case dropWhile is_digit r2 of
                            [] \<Rightarrow> None
                          | c2 # r4 \<Rightarrow>
                             if c2 \<noteq> CHR ''.'' then None
                             else (let c = takeWhile is_digit r4 in
                                   if c = [] then None
                                   else Some (a @ ''.'' @ b @ ''.'' @ c))))))"

text \<open>\<open>key.match(/(\d+\.\d+\.\d+)/)\<close>: the leftmost match, \<open>None\<close> for null.\<close>

fun match_semver :: "string \<Rightarrow> string option" where
  "match_semver [] = None"
| "match_semver (c # cs) =
    (case match_here (c # cs) of Some v \<Rightarrow> Some v | None \<Rightarrow> match_semver cs)"

text \<open>The status and the fields of the JSON body of a response.\<close>

datatype http_response = Response nat "(string \<times> string) list"

text \<open>
  \<open>app.get("/firmware/observer")\<close>; \<open>listing\<close> is the outcome of \<open>s3Client.send\<close>:
  \<open>Inl\<close> when it throws, else \<open>response.Contents\<close>, which may be undefined.
\<close>

definition firmware_observer :: "string option \<Rightarrow> error + s3_object list option \<Rightarrow> http_response" where
  "firmware_observer bucket_name listing =
    (case listing of
       Inl e \<Rightarrow> Response 500 [(''error'', ''Failed to fetch firmware'')]
     | Inr Contents \<Rightarrow>
        (let files = filter (\<lambda>item. \<not> ends_with_slash (Key item))
                       (case Contents of None \<Rightarrow> [] | Some items \<Rightarrow> items)
         in if length files = 0 then Response 404 [(''error'', ''No firmware found!'')]
            else (let file = files ! 0 in
                  (case match_semver (Key file) of
                     None \<Rightarrow> Response 404 [(''error'', ''No version found in filename!'')]
                   | Some version \<Rightarrow>
                      Response 200 [(''version'', version),
                                    (''url'', getPublicObjectURL bucket_name (Key file))]))))"

section \<open>Notions used in the statements\<close>

text \<open>The only event that creates the socket object \<open>r\<close>.\<close>

fun allocates :: "event \<Rightarrow> nat \<Rightarrow> bool" where
  "allocates (Connection r' uuid now url) r = (r' = r)"
| "allocates e r = False"

text \<open>A sequence of events each of which the environment can produce.\<close>

fun valid_run :: "relay \<Rightarrow> event list \<Rightarrow> bool" where
  "valid_run s [] = True"
| "valid_run s (e # es) = (enabled s e \<and> valid_run (fst (step s e)) es)"

text \<open>
  What every handler keeps of a socket object: its id, its role and its listeners; the
  flag \<open>isTerminating\<close> is never reset and a socket never becomes OPEN again.
\<close>

definition evolves :: "ws \<Rightarrow> ws \<Rightarrow> bool" where
  "evolves w w' = (clientId w' = clientId w \<and> deviceId w' = deviceId w \<and>
     productId w' = productId w \<and> listening w' = listening w \<and>
     (isTerminating w \<longrightarrow> isTerminating w') \<and>
     (readyState w \<noteq> OPEN \<longrightarrow> readyState w' \<noteq> OPEN))"

text \<open>The connection handler accepts a request when exactly one parameter is truthy.\<close>

definition accepted :: "string option \<Rightarrow> string option \<Rightarrow> bool" where
  "accepted device_id product_id = (truthy device_id \<noteq> truthy product_id)"

text \<open>The rate limiter lets a frame arriving at \<open>now\<close> through.\<close>

definition admitted :: "ws \<Rightarrow> int \<Rightarrow> bool" where
  "admitted w now = (messageCount (rate_window w now) \<le> 25)"

text \<open>How often the rate limiter asked to close socket \<open>r\<close>.\<close>

definition rate_closes :: "nat \<Rightarrow> effect list \<Rightarrow> nat" where
  "rate_closes r out = length (filter (\<lambda>e. e = Close r 1008 ''Rate limit exceeded'') out)"

text \<open>A burst of frames on socket \<open>r\<close>, each with its arrival time and its parse result.\<close>

definition messages :: "nat \<Rightarrow> (int \<times> json option) list \<Rightarrow> event list" where
  "messages r ms = map (\<lambda>(now, parsed). Message r now parsed) ms"

text \<open>The socket object \<open>t\<close> is in the OPEN state.\<close>

definition is_open :: "relay \<Rightarrow> nat \<Rightarrow> bool" where
  "is_open s t = (case heap s t of None \<Rightarrow> False | Some w \<Rightarrow> readyState w = OPEN)"

text \<open>A parsed message with target "device" and a non-empty string \<open>X\<close> as its deviceId.\<close>

definition to_device :: "json \<Rightarrow> string \<Rightarrow> bool" where
  "to_device m X = (get_prop m ''target'' = Inr (Some (JStr ''device'')) \<and>
                    get_prop m ''deviceId'' = Inr (Some (JStr X)) \<and> X \<noteq> [])"

text \<open>A parsed message with target "product" and a non-empty string \<open>X\<close> as its productId.\<close>

definition to_product :: "json \<Rightarrow> string \<Rightarrow> bool" where
  "to_product m X = (get_prop m ''target'' = Inr (Some (JStr ''product'')) \<and>
                     get_prop m ''productId'' = Inr (Some (JStr X)) \<and> X \<noteq> [])"

text \<open>The target of a parsed message is neither the string "device" nor the string "product".\<close>

definition invalid_target :: "json \<Rightarrow> bool" where
  "invalid_target m = (get_prop m ''target'' \<noteq> Inr (Some (JStr ''device'')) \<and>
                       get_prop m ''target'' \<noteq> Inr (Some (JStr ''product'')))"

text \<open>
  The identifier that the target requires is falsy: absent (undefined), the empty string,
  or null, false or 0.
\<close>

definition lacks_id :: "json \<Rightarrow> bool" where
  "lacks_id m =
    ((get_prop m ''target'' = Inr (Some (JStr ''device'')) \<and>
      (case get_prop m ''deviceId'' of Inl e \<Rightarrow> True | Inr d \<Rightarrow> falsy d)) \<or>
     (get_prop m ''target'' = Inr (Some (JStr ''product'')) \<and>
      (case get_prop m ''productId'' of Inl e \<Rightarrow> True | Inr p \<Rightarrow> falsy p)))"

text \<open>A frame that is not JSON, or whose message the router rejects.\<close>

definition malformed :: "json option \<Rightarrow> bool" where
  "malformed parsed =
    (case parsed of None \<Rightarrow> True | Some m \<Rightarrow> invalid_target m \<or> lacks_id m)"

text \<open>The only effect is the log entry of the \<open>catch\<close>.\<close>

definition only_logs :: "effect list \<Rightarrow> bool" where
  "only_logs out =
    (case out of
       [ConsoleError text (Some e)] \<Rightarrow> text = ''Error occured in WebSocket message callback:''
     | _ \<Rightarrow> False)"

text \<open>
  The close events that follow these effects: \<open>terminate()\<close> destroys the transport of
  the socket, upon which the library emits the socket's close event.
\<close>

fun closes_of :: "effect list \<Rightarrow> event list" where
  "closes_of [] = []"
| "closes_of (Terminate r # out) = CloseEvent r # closes_of out"
| "closes_of (e # out) = closes_of out"

text \<open>An event that reads the clock reads the time at which it happens.\<close>

fun at_time :: "int \<Rightarrow> event \<Rightarrow> bool" where
  "at_time t (Connection r uuid now url) = (now = t)"
| "at_time t (Message r now parsed) = (now = t)"
| "at_time t e = True"

text \<open>
  An execution with the time of each event, in milliseconds, taking the timer of
  \<open>setInterval\<close> as exact. \<open>clock\<close> is the time of the event before and \<open>due\<close> the time
  at which the timer fires next, at most one period after it was set. An event happens no
  earlier than the one before and no later than the tick that is due; the tick happens
  when it is due, and the timer is then due one period later.
\<close>

fun on_schedule :: "int \<Rightarrow> int \<Rightarrow> (int \<times> event) list \<Rightarrow> bool" where
  "on_schedule clock due [] = True"
| "on_schedule clock due ((t, e) # es) =
    (clock \<le> t \<and> t \<le> due \<and> due \<le> clock + heartbeat_ms \<and> at_time t e \<and>
     (if e = Tick then t = due \<and> on_schedule t (due + heartbeat_ms) es
      else on_schedule t due es))"

text \<open>The files of a listing: the entries whose key does not end with a slash.\<close>

definition files_of :: "s3_object list option \<Rightarrow> s3_object list" where
  "files_of Contents = filter (\<lambda>item. \<not> ends_with_slash (Key item))
                         (case Contents of None \<Rightarrow> [] | Some items \<Rightarrow> items)"

text \<open>A semantic version: three non-empty runs of digits joined by dots.\<close>

definition is_semver :: "string \<Rightarrow> bool" where
  "is_semver v = (\<exists>a b c. v = a @ ''.'' @ b @ ''.'' @ c \<and> a \<noteq> [] \<and> b \<noteq> [] \<and> c \<noteq> [] \<and>
                          (\<forall>x\<in>set (a @ b @ c). is_digit x))"

text \<open>The string has a semantic version somewhere in it.\<close>

definition has_semver :: "string \<Rightarrow> bool" where
  "has_semver k = (\<exists>pre v post. k = pre @ v @ post \<and> is_semver v)"

text \<open>The newest object of a listing: none was modified later.\<close>

definition newest :: "s3_object list \<Rightarrow> s3_object \<Rightarrow> bool" where
  "newest items f = (f \<in> set items \<and> (\<forall>g\<in>set items. LastModified g \<le> LastModified f))"

section \<open>The invariant\<close>

text \<open>
  What the tables depend on of a socket object: its id, its role, whether its handlers are
  registered and whether it is closed.
\<close>

record binding =
  b_clientId :: string
  b_deviceId :: "string option"
  b_productId :: "string option"
  b_listening :: bool
  b_closed :: bool

definition binding_of :: "ws \<Rightarrow> binding" where
  "binding_of w = \<lparr>b_clientId = clientId w, b_deviceId = deviceId w, b_productId = productId w,
                   b_listening = listening w, b_closed = (readyState w = CLOSED)\<rparr>"

definition bindings :: "relay \<Rightarrow> nat \<rightharpoonup> binding" where
  "bindings s r = map_option binding_of (heap s r)"

text \<open>
  The invariant of the reachable states. \<open>wss.clients\<close> is a set and holds exactly the
  sockets that are not closed, and no two sockets have the same id; \<open>clients\<close> maps an id
  to an unclosed socket with that id and with handlers; a bucket is never empty, has no
  id twice and holds ids of sockets of its own role and identifier; a socket with handlers
  that is not closed is in \<open>clients\<close> and in the bucket of its role.
\<close>

definition inv_sockets :: "relay \<Rightarrow> bool" where
  "inv_sockets s = (distinct (wss_clients s) \<and>
     (\<forall>r b. bindings s r = Some b \<longrightarrow> (b_closed b \<longleftrightarrow> r \<notin> set (wss_clients s))) \<and>
     (\<forall>r\<in>set (wss_clients s). bindings s r \<noteq> None) \<and>
     (\<forall>r r' b b'. bindings s r = Some b \<longrightarrow> bindings s r' = Some b' \<longrightarrow>
                   b_clientId b = b_clientId b' \<longrightarrow> r = r'))"

definition inv_clients :: "relay \<Rightarrow> bool" where
  "inv_clients s = (\<forall>c r. clients s c = Some r \<longrightarrow>
     r \<in> set (wss_clients s) \<and>
     (\<exists>b. bindings s r = Some b \<and> b_clientId b = c \<and> b_listening b))"

definition inv_devices :: "relay \<Rightarrow> bool" where
  "inv_devices s = (\<forall>X ids. deviceIdClients s X = Some ids \<longrightarrow>
     ids \<noteq> [] \<and> distinct ids \<and>
     (\<forall>c\<in>set ids. \<exists>r b. clients s c = Some r \<and> bindings s r = Some b \<and>
                         b_deviceId b = Some X \<and> b_productId b = None))"

definition inv_products :: "relay \<Rightarrow> bool" where
  "inv_products s = (\<forall>X ids. productIdClients s X = Some ids \<longrightarrow>
     ids \<noteq> [] \<and> distinct ids \<and>
     (\<forall>c\<in>set ids. \<exists>r b. clients s c = Some r \<and> bindings s r = Some b \<and>
                         b_productId b = Some X \<and> b_deviceId b = None))"

definition inv_registered :: "relay \<Rightarrow> bool" where
  "inv_registered s = (\<forall>r b. bindings s r = Some b \<longrightarrow> b_listening b \<longrightarrow>
     r \<in> set (wss_clients s) \<longrightarrow>
     clients s (b_clientId b) = Some r \<and>
     ((\<exists>X. X \<noteq> [] \<and> b_deviceId b = Some X \<and> b_productId b = None \<and>
           b_clientId b \<in> set (bucket (deviceIdClients s) X)) \<or>
      (\<exists>X. X \<noteq> [] \<and> b_productId b = Some X \<and> b_deviceId b = None \<and>
           b_clientId b \<in> set (bucket (productIdClients s) X))))"

definition inv :: "relay \<Rightarrow> bool" where
  "inv s = (inv_sockets s \<and> inv_clients s \<and> inv_devices s \<and> inv_products s \<and> inv_registered s)"

section \<open>Sample states\<close>

text \<open>Two devices under the identifier X and one product under P, connected in this order.\<close>

definition sample :: relay where
  "sample = fst (run initial
     [Connection 0 ''c0'' 0 (Some (Some ''X'', None)),
      Connection 1 ''c1'' 5 (Some (Some ''X'', None)),
      Connection 2 ''c2'' 7 (Some (None, Some ''P''))])"

definition ws0 :: ws where
  "ws0 = \<lparr>clientId = ''c0'', isAlive = True, isTerminating = False, messageCount = 0,
          messageWindow = 0, deviceId = Some ''X'', productId = None, readyState = OPEN,
          listening = True\<rparr>"

definition ws2 :: ws where
  "ws2 = \<lparr>clientId = ''c2'', isAlive = True, isTerminating = False, messageCount = 0,
          messageWindow = 7, deviceId = None, productId = Some ''P'', readyState = OPEN,
          listening = True\<rparr>"

text \<open>The sample state after 25 frames on socket 0 at time 10, inside its first window.\<close>

definition busy :: relay where
  "busy = fst (run sample (messages 0 (replicate 25 (10, None))))"

text \<open>The sample state after the product's socket has closed.\<close>

definition closed_sample :: relay where
  "closed_sample = fst (step sample (CloseEvent 2))"

text \<open>A message for the devices registered under X.\<close>

definition hello :: json where
  "hello = JObj [(''target'', JStr ''device''), (''deviceId'', JStr ''X''), (''payload'', JNum 1)]"

text \<open>Two firmware files in the order of a listing, which is the order of the keys.\<close>

definition old_firmware :: s3_object where
  "old_firmware = \<lparr>Key = ''rootprivacy/firmware/observer/observer-1.0.0.bin'', LastModified = 100\<rparr>"

definition new_firmware :: s3_object where
  "new_firmware = \<lparr>Key = ''rootprivacy/firmware/observer/observer-1.1.0.bin'', LastModified = 200\<rparr>"

lemma sample_heap0: "heap sample 0 = Some ws0"
  by (simp add: sample_def ws0_def initial_def on_connection_def Let_def bucket_def)

lemma sample_clients: "clients sample = [''c0'' \<mapsto> 0, ''c1'' \<mapsto> 1, ''c2'' \<mapsto> 2]"
  by (simp add: sample_def initial_def on_connection_def Let_def bucket_def)

lemma sample_deviceIdClients: "deviceIdClients sample = [''X'' \<mapsto> [''c0'', ''c1'']]"
  by (simp add: sample_def initial_def on_connection_def Let_def bucket_def)

lemma sample_productIdClients: "productIdClients sample = [''P'' \<mapsto> [''c2'']]"
  by (simp add: sample_def initial_def on_connection_def Let_def bucket_def)

lemma sample_wss_clients: "wss_clients sample = [0, 1, 2]"
  by (simp add: sample_def initial_def on_connection_def Let_def bucket_def)

section \<open>Teardown\<close>

lemma remove_from_twice: "remove_from (remove_from m k c) k c = remove_from m k c"
  by (auto simp: remove_from_def bucket_def Let_def split: option.splits)

lemma remove_from_other: "k' \<noteq> k \<Longrightarrow> remove_from m k c k' = m k'"
  by (simp add: remove_from_def Let_def)

lemma bucket_remove_from_other: "k' \<noteq> k \<Longrightarrow> bucket (remove_from m k c) k' = bucket m k'"
  by (simp add: bucket_def remove_from_other)

lemma bucket_remove_from_same:
  "bucket (remove_from m k c) k = filter (\<lambda>e. e \<noteq> c) (bucket m k)"
  by (simp add: remove_from_def bucket_def Let_def)

lemma filter_bucket_remove_from:
  "filter (\<lambda>e. e \<noteq> c) (bucket (remove_from m k c) k') = filter (\<lambda>e. e \<noteq> c) (bucket m k')"
  by (cases "k' = k") (simp_all add: bucket_remove_from_other bucket_remove_from_same)

lemma heap_on_close: "heap (on_close s r) = heap s"
  by (simp add: on_close_def Let_def split: option.splits)

lemma wss_clients_on_close: "wss_clients (on_close s r) = wss_clients s"
  by (simp add: on_close_def Let_def split: option.splits)

lemma clients_on_close:
  "heap s r = Some w \<Longrightarrow> clients (on_close s r) = (clients s)(clientId w := None)"
  by (simp add: on_close_def Let_def)

lemma deviceIdClients_on_close:
  "heap s r = Some w \<Longrightarrow> deviceIdClients (on_close s r) =
     (if truthy (deviceId w) then remove_from (deviceIdClients s) (the (deviceId w)) (clientId w)
      else deviceIdClients s)"
  by (simp add: on_close_def Let_def)

lemma productIdClients_on_close:
  "heap s r = Some w \<Longrightarrow> productIdClients (on_close s r) =
     (if truthy (productId w) then remove_from (productIdClients s) (the (productId w)) (clientId w)
      else productIdClients s)"
  by (simp add: on_close_def Let_def)

lemma on_close_twice: "on_close (on_close s r) r = on_close s r"
  by (cases "heap s r") (simp_all add: on_close_def Let_def remove_from_twice)

lemma emit_close_twice: "emit_close (emit_close s r) r = emit_close s r"
proof (cases "heap s r")
  case None
  then show ?thesis by (simp add: emit_close_def)
next
  case (Some w)
  then show ?thesis
    by (simp add: emit_close_def Let_def heap_on_close)
       (simp add: on_close_def Let_def remove_from_twice)
qed

text \<open>
  C6. Running the close handler a second time for the same socket changes nothing: the
  whole state (the connection table, both registries and the sockets) is the state after
  the first run, and the same holds for the complete close event. The handler has no
  error path.
\<close>

theorem teardown_idempotent:
  "on_close (on_close s r) r = on_close s r \<and>
   step (fst (step s (CloseEvent r))) (CloseEvent r) = step s (CloseEvent r)"
  by (simp add: on_close_twice emit_close_twice)

text \<open>
  C10. The close handler of a socket \<open>r\<close> with client id \<open>c\<close> leaves every other entry of
  the connection table as it is, changes no socket object, leaves every bucket other than
  the one named by the socket's own deviceId or productId as it is, and in every bucket
  keeps the ids other than \<open>c\<close>, in their order.
\<close>

theorem teardown_frame:
  assumes "heap s r = Some w"
  shows "(\<forall>d. d \<noteq> clientId w \<longrightarrow> clients (on_close s r) d = clients s d) \<and>
         heap (on_close s r) = heap s \<and>
         wss_clients (on_close s r) = wss_clients s \<and>
         (\<forall>X. deviceId w \<noteq> Some X \<longrightarrow> deviceIdClients (on_close s r) X = deviceIdClients s X) \<and>
         (\<forall>X. productId w \<noteq> Some X \<longrightarrow> productIdClients (on_close s r) X = productIdClients s X) \<and>
         (\<forall>X. filter (\<lambda>e. e \<noteq> clientId w) (bucket (deviceIdClients (on_close s r)) X) =
               filter (\<lambda>e. e \<noteq> clientId w) (bucket (deviceIdClients s) X)) \<and>
         (\<forall>X. filter (\<lambda>e. e \<noteq> clientId w) (bucket (productIdClients (on_close s r)) X) =
               filter (\<lambda>e. e \<noteq> clientId w) (bucket (productIdClients s) X))"
proof -
  have c: "\<forall>d. d \<noteq> clientId w \<longrightarrow> clients (on_close s r) d = clients s d"
    using assms by (simp add: clients_on_close)
  have d: "\<forall>X. deviceId w \<noteq> Some X \<longrightarrow> deviceIdClients (on_close s r) X = deviceIdClients s X"
    using assms by (cases "deviceId w") (auto simp: deviceIdClients_on_close remove_from_other)
  have p: "\<forall>X. productId w \<noteq> Some X \<longrightarrow> productIdClients (on_close s r) X = productIdClients s X"
    using assms by (cases "productId w") (auto simp: productIdClients_on_close remove_from_other)
  have fd: "\<forall>X. filter (\<lambda>e. e \<noteq> clientId w) (bucket (deviceIdClients (on_close s r)) X) =
                filter (\<lambda>e. e \<noteq> clientId w) (bucket (deviceIdClients s) X)"
    using assms by (simp add: deviceIdClients_on_close filter_bucket_remove_from)
  have fp: "\<forall>X. filter (\<lambda>e. e \<noteq> clientId w) (bucket (productIdClients (on_close s r)) X) =
                filter (\<lambda>e. e \<noteq> clientId w) (bucket (productIdClients s) X)"
    using assms by (simp add: productIdClients_on_close filter_bucket_remove_from)
  show ?thesis using c d p fd fp by (simp add: heap_on_close wss_clients_on_close)
qed

theorem teardown_frame_witness:
  "heap sample 0 = Some ws0 \<and>
   clients (on_close sample 0) ''c1'' = Some 1 \<and>
   clients (on_close sample 0) ''c2'' = Some 2 \<and>
   heap (on_close sample 0) = heap sample \<and>
   deviceIdClients (on_close sample 0) ''Y'' = None \<and>
   productIdClients (on_close sample 0) ''P'' = Some [''c2''] \<and>
   filter (\<lambda>e. e \<noteq> ''c0'') (bucket (deviceIdClients (on_close sample 0)) ''X'') = [''c1'']"
  using teardown_frame [OF sample_heap0]
  by (simp add: sample_heap0 sample_clients sample_deviceIdClients sample_productIdClients
        ws0_def bucket_def)

section \<open>What the handlers keep of a socket\<close>

lemma evolves_refl: "evolves w w"
  by (simp add: evolves_def)

lemma evolves_trans: "evolves w w' \<Longrightarrow> evolves w' w'' \<Longrightarrow> evolves w w''"
  by (simp add: evolves_def)

lemma ws_close_evolves:
  "heap s r = Some w \<Longrightarrow> \<exists>w'. heap (ws_close s r') r = Some w' \<and> evolves w w' \<and> isAlive w' = isAlive w"
  by (auto simp: ws_close_def evolves_def split: option.splits)

lemma ws_terminate_evolves:
  "heap s r = Some w \<Longrightarrow> \<exists>w'. heap (ws_terminate s r') r = Some w' \<and> evolves w w' \<and> isAlive w' = isAlive w"
  by (auto simp: ws_terminate_def evolves_def split: option.splits)

lemma heap_ws_close_other: "r \<noteq> r' \<Longrightarrow> heap (ws_close s r') r = heap s r"
  by (auto simp: ws_close_def split: option.splits)

lemma on_connection_evolves:
  "heap s r = Some w \<Longrightarrow> r' \<noteq> r \<Longrightarrow>
   heap (fst (on_connection s r' uuid now url)) r = Some w"
  by (simp add: on_connection_def Let_def heap_ws_close_other split: option.splits prod.splits)

lemma on_pong_evolves:
  "heap s r = Some w \<Longrightarrow> \<exists>w'. heap (on_pong s r') r = Some w' \<and> evolves w w' \<and> (r' \<noteq> r \<longrightarrow> isAlive w' = isAlive w)"
  by (auto simp: on_pong_def evolves_def split: option.splits)

lemma rate_window_evolves: "evolves w (rate_window w now) \<and> isAlive (rate_window w now) = isAlive w"
  by (simp add: rate_window_def evolves_def Let_def)

lemma on_message_evolves:
  "heap s r = Some w \<Longrightarrow> \<exists>w'. heap (fst (on_message s r' now parsed)) r = Some w' \<and> evolves w w' \<and> isAlive w' = isAlive w"
  apply (cases "r' = r")
  subgoal
    using rate_window_evolves[of w now]
    by (auto simp: on_message_def Let_def ws_close_def evolves_def split: option.splits sum.splits)
  subgoal
    by (auto simp: on_message_def Let_def heap_ws_close_other evolves_refl split: option.splits sum.splits)
  done

lemma emit_close_evolves:
  "heap s r = Some w \<Longrightarrow> \<exists>w'. heap (emit_close s r') r = Some w' \<and> evolves w w' \<and> isAlive w' = isAlive w"
  by (auto simp: emit_close_def Let_def heap_on_close evolves_def split: option.splits)

lemma heartbeat_each_evolves:
  "heap s r = Some w \<Longrightarrow> \<exists>w'. heap (fst (heartbeat_each s r')) r = Some w' \<and> evolves w w' \<and> (isAlive w' \<longrightarrow> isAlive w)"
  by (auto simp: heartbeat_each_def ws_terminate_def evolves_def split: option.splits)

lemma fst_heartbeat_loop_Cons:
  "fst (heartbeat_loop s (r # rs)) = fst (heartbeat_loop (fst (heartbeat_each s r)) rs)"
  by (simp add: split_def Let_def)

lemma snd_heartbeat_loop_Cons:
  "snd (heartbeat_loop s (r # rs)) =
     snd (heartbeat_each s r) @ snd (heartbeat_loop (fst (heartbeat_each s r)) rs)"
  by (simp add: split_def Let_def)

lemma fst_run_Cons: "fst (run s (e # es)) = fst (run (fst (step s e)) es)"
  by (simp add: split_def Let_def)

lemma snd_run_Cons: "snd (run s (e # es)) = snd (step s e) @ snd (run (fst (step s e)) es)"
  by (simp add: split_def Let_def)

lemma heartbeat_loop_evolves:
  "heap s r = Some w \<Longrightarrow> \<exists>w'. heap (fst (heartbeat_loop s rs)) r = Some w' \<and> evolves w w' \<and> (isAlive w' \<longrightarrow> isAlive w)"
proof (induction rs arbitrary: s w)
  case Nil
  then show ?case by (simp add: evolves_refl)
next
  case (Cons a rs)
  obtain w1 where w1: "heap (fst (heartbeat_each s a)) r = Some w1" "evolves w w1"
      "isAlive w1 \<longrightarrow> isAlive w"
    using heartbeat_each_evolves[OF Cons.prems, of a] by auto
  obtain w2 where w2: "heap (fst (heartbeat_loop (fst (heartbeat_each s a)) rs)) r = Some w2"
      "evolves w1 w2" "isAlive w2 \<longrightarrow> isAlive w1"
    using Cons.IH[OF w1(1)] by auto
  show ?case using w1 w2 evolves_trans[OF w1(2) w2(2)]
    by (auto simp: fst_heartbeat_loop_Cons simp del: heartbeat_loop.simps)
qed

lemma step_evolves:
  assumes "heap s r = Some w" "\<not> allocates e r"
  shows "\<exists>w'. heap (fst (step s e)) r = Some w' \<and> evolves w w' \<and> (e \<noteq> Pong r \<longrightarrow> isAlive w' \<longrightarrow> isAlive w)"
proof (cases e)
  case (Connection r' uuid now url)
  then show ?thesis using assms on_connection_evolves[of s r w r' uuid now url]
    by (auto simp: evolves_refl)
next
  case (Message r' now parsed)
  then show ?thesis using assms on_message_evolves[of s r w r' now parsed]
    by (auto simp: evolves_refl)
next
  case (Pong r')
  then show ?thesis using assms on_pong_evolves[of s r w r']
    by (auto simp: evolves_refl)
next
  case (CloseEvent r')
  then show ?thesis using assms emit_close_evolves[of s r w r'] by auto
next
  case (ErrorEvent r')
  then show ?thesis using assms by (auto simp: evolves_refl)
next
  case Tick
  then show ?thesis using assms heartbeat_loop_evolves[of s r w "wss_clients s"]
    by (auto simp: heartbeat_def)
qed

section \<open>The rate limiter\<close>

lemma rate_closes_Nil: "rate_closes r [] = 0"
  by (simp add: rate_closes_def)

lemma rate_closes_append: "rate_closes r (xs @ ys) = rate_closes r xs + rate_closes r ys"
  by (simp add: rate_closes_def)

lemma rate_closes_deliver: "rate_closes r (deliver s m ids) = 0"
  by (induction ids) (auto simp: rate_closes_def split: option.splits)

lemma rate_closes_try_route: "rate_closes r (try_route s parsed) = 0"
  by (auto simp: try_route_def route_def rate_closes_deliver split: option.splits sum.splits)
     (simp_all add: rate_closes_def)

lemma rate_closes_on_connection: "rate_closes r (snd (on_connection s r' uuid now url)) = 0"
  by (simp add: on_connection_def Let_def rate_closes_def split: option.splits prod.splits)

lemma rate_closes_heartbeat_each: "rate_closes r (snd (heartbeat_each s r')) = 0"
  by (simp add: heartbeat_each_def rate_closes_def split: option.splits)

lemma rate_closes_heartbeat_loop: "rate_closes r (snd (heartbeat_loop s rs)) = 0"
  by (induction rs arbitrary: s)
     (simp_all add: snd_heartbeat_loop_Cons rate_closes_append rate_closes_heartbeat_each
        rate_closes_Nil del: heartbeat_loop.simps(2))

lemma rate_window_fields:
  "clientId (rate_window w now) = clientId w \<and> isAlive (rate_window w now) = isAlive w \<and>
   isTerminating (rate_window w now) = isTerminating w \<and>
   deviceId (rate_window w now) = deviceId w \<and> productId (rate_window w now) = productId w \<and>
   readyState (rate_window w now) = readyState w \<and> listening (rate_window w now) = listening w"
  by (simp add: rate_window_def Let_def)

lemma on_message_limited:
  assumes "heap s r = Some w" "messageCount (rate_window w now) > 25" "\<not> isTerminating w"
  shows "on_message s r now parsed =
     (ws_close (s\<lparr>heap := (heap s)(r \<mapsto> (rate_window w now)\<lparr>isTerminating := True\<rparr>)\<rparr>) r,
      [Close r 1008 ''Rate limit exceeded'',
       ConsoleError (''WebSocket connection '' @ clientId w @
                     '' closed due to rate limit exceeded.'') None])"
  using assms by (simp add: on_message_def Let_def rate_window_fields)

lemma on_message_limited_again:
  assumes "heap s r = Some w" "messageCount (rate_window w now) > 25" "isTerminating w"
  shows "on_message s r now parsed = (s\<lparr>heap := (heap s)(r \<mapsto> rate_window w now)\<rparr>, [])"
  using assms by (simp add: on_message_def Let_def rate_window_fields)

lemma on_message_admitted:
  assumes "heap s r = Some w" "messageCount (rate_window w now) \<le> 25"
  shows "on_message s r now parsed =
     (s\<lparr>heap := (heap s)(r \<mapsto> rate_window w now)\<rparr>,
      try_route (s\<lparr>heap := (heap s)(r \<mapsto> rate_window w now)\<rparr>) parsed)"
  using assms by (simp add: on_message_def Let_def)

lemma rate_closes_on_message_other:
  "r' \<noteq> r \<Longrightarrow> rate_closes r (snd (on_message s r' now parsed)) = 0"
  by (auto simp: on_message_def Let_def rate_closes_try_route split: option.splits)
     (simp_all add: rate_closes_def)

lemma rate_closes_on_message:
  assumes "heap s r = Some w"
  shows "rate_closes r (snd (on_message s r now parsed)) =
     (if messageCount (rate_window w now) > 25 \<and> \<not> isTerminating w then 1 else 0)"
proof (cases "messageCount (rate_window w now) > 25")
  case True
  then show ?thesis
    using on_message_limited[OF assms True, of parsed] on_message_limited_again[OF assms True, of parsed]
    by (cases "isTerminating w") (simp_all add: rate_closes_def)
next
  case False
  then show ?thesis using on_message_admitted[OF assms, of now parsed]
    by (simp add: rate_closes_try_route)
qed

lemma isTerminating_on_message_limited:
  assumes "heap s r = Some w" "messageCount (rate_window w now) > 25"
  shows "\<exists>w'. heap (fst (on_message s r now parsed)) r = Some w' \<and> isTerminating w' \<and>
     (\<not> isTerminating w \<longrightarrow> readyState w' \<noteq> OPEN)"
proof (cases "isTerminating w")
  case True
  then show ?thesis using on_message_limited_again[OF assms True, of parsed]
    by (simp add: rate_window_fields)
next
  case False
  then show ?thesis using on_message_limited[OF assms False, of parsed]
    by (auto simp: ws_close_def)
qed

lemma rate_closes_step:
  assumes "heap s r = Some w" "\<not> allocates e r"
  shows "rate_closes r (snd (step s e)) \<le> (if isTerminating w then 0 else 1) \<and>
         (rate_closes r (snd (step s e)) = 1 \<longrightarrow>
            (\<exists>w'. heap (fst (step s e)) r = Some w' \<and> isTerminating w'))"
proof (cases e)
  case (Connection r' uuid now url)
  then show ?thesis by (simp add: rate_closes_on_connection)
next
  case (Message r' now parsed)
  show ?thesis
  proof (cases "r' = r")
    case True
    then show ?thesis using Message assms rate_closes_on_message[OF assms(1), of now parsed]
        isTerminating_on_message_limited[OF assms(1), of now parsed]
      by (auto simp: rate_closes_Nil split: if_splits)
  next
    case False
    then show ?thesis using Message by (simp add: rate_closes_on_message_other rate_closes_Nil)
  qed
next
  case (Pong r')
  then show ?thesis by (simp add: rate_closes_Nil)
next
  case (CloseEvent r')
  then show ?thesis by (simp add: rate_closes_Nil)
next
  case (ErrorEvent r')
  then show ?thesis by (simp add: rate_closes_def)
next
  case Tick
  then show ?thesis by (simp add: heartbeat_def rate_closes_heartbeat_loop)
qed

lemma rate_closes_run:
  assumes "heap s r = Some w" "\<forall>e\<in>set es. \<not> allocates e r"
  shows "rate_closes r (snd (run s es)) \<le> (if isTerminating w then 0 else 1)"
  using assms
proof (induction es arbitrary: s w)
  case Nil
  then show ?case by (simp add: rate_closes_Nil)
next
  case (Cons e es)
  have na: "\<not> allocates e r" using Cons.prems(2) by simp
  obtain w' where w': "heap (fst (step s e)) r = Some w'" "evolves w w'"
    using step_evolves[OF Cons.prems(1) na] by auto
  have st: "rate_closes r (snd (step s e)) \<le> (if isTerminating w then 0 else 1)"
    "rate_closes r (snd (step s e)) = 1 \<longrightarrow> isTerminating w'"
    using rate_closes_step[OF Cons.prems(1) na] w' by auto
  have rest: "rate_closes r (snd (run (fst (step s e)) es)) \<le> (if isTerminating w' then 0 else 1)"
    using Cons.IH[OF w'(1)] Cons.prems(2) by simp
  show ?case
    using st rest w'(2)
    by (auto simp: snd_run_Cons rate_closes_append evolves_def simp del: run.simps split: if_splits)
qed

lemma messageCount_rate_window:
  "messageCount (rate_window w now) = (if now - messageWindow w > 1000 then 1 else messageCount w + 1) \<and>
   messageWindow (rate_window w now) = (if now - messageWindow w > 1000 then now else messageWindow w)"
  by (simp add: rate_window_def Let_def)

lemma not_allocates_messages: "\<forall>e\<in>set (messages r ms). \<not> allocates e r"
  by (auto simp: messages_def)

lemma messages_Cons: "messages r ((now, parsed) # ms) = Message r now parsed # messages r ms"
  by (simp add: messages_def)

lemma burst_under_limit:
  assumes "heap s r = Some w" "messageCount w + length ms \<le> 25"
  shows "rate_closes r (snd (run s (messages r ms))) = 0 \<and>
         (\<exists>w'. heap (fst (run s (messages r ms))) r = Some w' \<and> readyState w' = readyState w \<and>
               isTerminating w' = isTerminating w)"
  using assms
proof (induction ms arbitrary: s w)
  case Nil
  then show ?case by (simp add: messages_def rate_closes_Nil)
next
  case (Cons m ms)
  obtain now parsed where m: "m = (now, parsed)" by (cases m)
  let ?s1 = "fst (step s (Message r now parsed))"
  have le: "messageCount (rate_window w now) \<le> 25"
    using Cons.prems(2) by (simp add: messageCount_rate_window)
  have st: "rate_closes r (snd (step s (Message r now parsed))) = 0"
    using on_message_admitted[OF Cons.prems(1) le, of parsed]
    by (simp add: rate_closes_try_route rate_closes_Nil)
  obtain w1 where w1: "heap ?s1 r = Some w1" "readyState w1 = readyState w"
      "isTerminating w1 = isTerminating w" "messageCount w1 \<le> messageCount w + 1"
    using on_message_admitted[OF Cons.prems(1) le, of parsed] Cons.prems(1)
    by (cases "has_listeners s r") (auto simp: rate_window_fields messageCount_rate_window)
  have "messageCount w1 + length ms \<le> 25" using w1(4) Cons.prems(2) by simp
  from Cons.IH[OF w1(1) this] w1 st show ?case
    by (simp add: m messages_Cons snd_run_Cons fst_run_Cons rate_closes_append del: run.simps step.simps)
qed

lemma burst_over_limit:
  assumes "heap s r = Some w" "listening w" "\<not> isTerminating w" "messageCount w \<le> 25"
    "\<forall>(now, parsed)\<in>set ms. now - messageWindow w \<le> 1000"
    "messageCount w + length ms > 25"
  shows "rate_closes r (snd (run s (messages r ms))) = 1"
  using assms
proof (induction ms arbitrary: s w)
  case Nil
  then show ?case by simp
next
  case (Cons m ms)
  obtain now parsed where m: "m = (now, parsed)" by (cases m)
  let ?s1 = "fst (step s (Message r now parsed))"
  have inwin: "\<not> now - messageWindow w > 1000" using Cons.prems(5) m by auto
  have hl: "has_listeners s r" using Cons.prems(1,2) by (simp add: has_listeners_def)
  show ?case
  proof (cases "messageCount w + 1 > 25")
    case True
    then have over: "messageCount (rate_window w now) > 25"
      using inwin by (simp add: messageCount_rate_window)
    have one: "rate_closes r (snd (step s (Message r now parsed))) = 1"
      using hl rate_closes_on_message[OF Cons.prems(1), of now parsed] over Cons.prems(3) by simp
    obtain w1 where w1: "heap ?s1 r = Some w1" "isTerminating w1"
      using hl isTerminating_on_message_limited[OF Cons.prems(1) over, of parsed] by auto
    have "rate_closes r (snd (run ?s1 (messages r ms))) \<le> (if isTerminating w1 then 0 else 1)"
      by (rule rate_closes_run[OF w1(1) not_allocates_messages])
    then show ?thesis using one w1(2)
      by (simp add: m messages_Cons snd_run_Cons rate_closes_append del: run.simps step.simps)
  next
    case False
    then have le: "messageCount (rate_window w now) \<le> 25"
      using inwin by (simp add: messageCount_rate_window)
    have zero: "rate_closes r (snd (step s (Message r now parsed))) = 0"
      using hl on_message_admitted[OF Cons.prems(1) le, of parsed] by (simp add: rate_closes_try_route)
    have w1: "heap ?s1 r = Some (rate_window w now)"
      using hl on_message_admitted[OF Cons.prems(1) le, of parsed] by simp
    have "rate_closes r (snd (run ?s1 (messages r ms))) = 1"
    proof (rule Cons.IH[OF w1])
      show "listening (rate_window w now)" using Cons.prems(2) by (simp add: rate_window_fields)
      show "\<not> isTerminating (rate_window w now)" using Cons.prems(3) by (simp add: rate_window_fields)
      show "messageCount (rate_window w now) \<le> 25" by (rule le)
      show "\<forall>(now', parsed)\<in>set ms. now' - messageWindow (rate_window w now) \<le> 1000"
        using Cons.prems(5) inwin by (auto simp: messageCount_rate_window)
      show "25 < messageCount (rate_window w now) + length ms"
        using Cons.prems(6) inwin by (simp add: messageCount_rate_window)
    qed
    then show ?thesis using zero
      by (simp add: m messages_Cons snd_run_Cons rate_closes_append del: run.simps step.simps)
  qed
qed

lemma burst_in_window:
  assumes "heap s r = Some w" "listening w" "messageCount w + length ms \<le> 25"
    "\<forall>(now, parsed)\<in>set ms. now - messageWindow w \<le> 1000"
  shows "heap (fst (run s (messages r ms))) r = Some (w\<lparr>messageCount := messageCount w + length ms\<rparr>)"
  using assms
proof (induction ms arbitrary: s w)
  case Nil
  then show ?case by (simp add: messages_def)
next
  case (Cons m ms)
  obtain now parsed where m: "m = (now, parsed)" by (cases m)
  let ?s1 = "fst (step s (Message r now parsed))"
  let ?w1 = "w\<lparr>messageCount := messageCount w + 1\<rparr>"
  have inwin: "\<not> now - messageWindow w > 1000" using Cons.prems(4) m by auto
  then have rw: "rate_window w now = ?w1" by (simp add: rate_window_def Let_def)
  have le: "messageCount (rate_window w now) \<le> 25" using Cons.prems(3) rw by simp
  have hl: "has_listeners s r" using Cons.prems(1,2) by (simp add: has_listeners_def)
  have w1: "heap ?s1 r = Some ?w1"
    using hl on_message_admitted[OF Cons.prems(1) le, of parsed] rw by simp
  have "heap (fst (run ?s1 (messages r ms))) r =
          Some (?w1\<lparr>messageCount := messageCount ?w1 + length ms\<rparr>)"
    using Cons.prems by (intro Cons.IH[OF w1]) auto
  then show ?case
    by (simp add: m messages_Cons fst_run_Cons del: run.simps step.simps)
qed

lemma busy_heap0: "heap busy 0 = Some (ws0\<lparr>messageCount := 25\<rparr>)"
  using burst_in_window[OF sample_heap0, of "replicate 25 (10, None)"]
  by (simp add: busy_def ws0_def)

text \<open>
  C3. For a frame arriving at time \<open>now\<close> on a socket \<open>w\<close>: the window is reset (start
  \<open>now\<close>, count 0) when more than 1000 ms have passed since its start, and the count is
  then incremented. When the count exceeds 25 and the socket is not yet terminating, the
  handler asks for a close with code 1008 and reason "Rate limit exceeded", sets the flag and
  does nothing else with the frame; when the flag is already set it does nothing at all.
  Otherwise the frame goes to the router. Over any sequence of events the close is asked for
  at most once; a burst that keeps the count at 25 or below asks for no close; a burst inside
  one window that takes the count above 25 asks for exactly one.
\<close>

theorem rate_limiting:
  assumes "heap s r = Some w"
  shows "(now - messageWindow w > 1000 \<longrightarrow>
            messageWindow (rate_window w now) = now \<and> messageCount (rate_window w now) = 1) \<and>
         (\<not> now - messageWindow w > 1000 \<longrightarrow>
            messageWindow (rate_window w now) = messageWindow w \<and>
            messageCount (rate_window w now) = messageCount w + 1) \<and>
         (messageCount (rate_window w now) > 25 \<longrightarrow> \<not> isTerminating w \<longrightarrow>
            snd (on_message s r now parsed) =
              [Close r 1008 ''Rate limit exceeded'',
               ConsoleError (''WebSocket connection '' @ clientId w @
                             '' closed due to rate limit exceeded.'') None] \<and>
            (\<exists>w'. heap (fst (on_message s r now parsed)) r = Some w' \<and> isTerminating w' \<and>
                  readyState w' \<noteq> OPEN)) \<and>
         (messageCount (rate_window w now) > 25 \<longrightarrow> isTerminating w \<longrightarrow>
            snd (on_message s r now parsed) = []) \<and>
         (messageCount (rate_window w now) \<le> 25 \<longrightarrow>
            on_message s r now parsed =
              (s\<lparr>heap := (heap s)(r \<mapsto> rate_window w now)\<rparr>,
               try_route (s\<lparr>heap := (heap s)(r \<mapsto> rate_window w now)\<rparr>) parsed)) \<and>
         ((\<forall>e\<in>set es. \<not> allocates e r) \<longrightarrow> rate_closes r (snd (run s es)) \<le> 1) \<and>
         (messageCount w + length ms \<le> 25 \<longrightarrow>
            rate_closes r (snd (run s (messages r ms))) = 0 \<and>
            (\<exists>w'. heap (fst (run s (messages r ms))) r = Some w' \<and> readyState w' = readyState w)) \<and>
         (listening w \<and> \<not> isTerminating w \<and> messageCount w \<le> 25 \<and>
          (\<forall>(t, p)\<in>set ms. t - messageWindow w \<le> 1000) \<and> messageCount w + length ms > 25 \<longrightarrow>
            rate_closes r (snd (run s (messages r ms))) = 1)"
proof -
  have reset: "now - messageWindow w > 1000 \<longrightarrow>
            messageWindow (rate_window w now) = now \<and> messageCount (rate_window w now) = 1"
    by (simp add: messageCount_rate_window)
  have count: "\<not> now - messageWindow w > 1000 \<longrightarrow>
            messageWindow (rate_window w now) = messageWindow w \<and>
            messageCount (rate_window w now) = messageCount w + 1"
    by (simp add: messageCount_rate_window)
  have closed: "messageCount (rate_window w now) > 25 \<longrightarrow> \<not> isTerminating w \<longrightarrow>
            snd (on_message s r now parsed) =
              [Close r 1008 ''Rate limit exceeded'',
               ConsoleError (''WebSocket connection '' @ clientId w @
                             '' closed due to rate limit exceeded.'') None] \<and>
            (\<exists>w'. heap (fst (on_message s r now parsed)) r = Some w' \<and> isTerminating w' \<and>
                  readyState w' \<noteq> OPEN)"
    using on_message_limited[OF assms, of now parsed]
      isTerminating_on_message_limited[OF assms, of now parsed] by auto
  have guarded: "messageCount (rate_window w now) > 25 \<longrightarrow> isTerminating w \<longrightarrow>
            snd (on_message s r now parsed) = []"
    using on_message_limited_again[OF assms, of now parsed] by simp
  have admitted: "messageCount (rate_window w now) \<le> 25 \<longrightarrow>
            on_message s r now parsed =
              (s\<lparr>heap := (heap s)(r \<mapsto> rate_window w now)\<rparr>,
               try_route (s\<lparr>heap := (heap s)(r \<mapsto> rate_window w now)\<rparr>) parsed)"
    using on_message_admitted[OF assms, of now parsed] by simp
  have once: "(\<forall>e\<in>set es. \<not> allocates e r) \<longrightarrow> rate_closes r (snd (run s es)) \<le> 1"
    using rate_closes_run[OF assms, of es] by (auto split: if_splits)
  have under: "messageCount w + length ms \<le> 25 \<longrightarrow>
            rate_closes r (snd (run s (messages r ms))) = 0 \<and>
            (\<exists>w'. heap (fst (run s (messages r ms))) r = Some w' \<and> readyState w' = readyState w)"
    using burst_under_limit[OF assms, of ms] by auto
  have over: "listening w \<and> \<not> isTerminating w \<and> messageCount w \<le> 25 \<and>
          (\<forall>(t, p)\<in>set ms. t - messageWindow w \<le> 1000) \<and> messageCount w + length ms > 25 \<longrightarrow>
            rate_closes r (snd (run s (messages r ms))) = 1"
    using burst_over_limit[OF assms, of ms] by blast
  show ?thesis
    by (intro conjI) (rule reset count closed guarded admitted once under over)+
qed

theorem rate_limiting_witness:
  "heap sample 0 = Some ws0 \<and> heap busy 0 = Some (ws0\<lparr>messageCount := 25\<rparr>) \<and>
   messageWindow (rate_window ws0 2000) = 2000 \<and> messageCount (rate_window ws0 2000) = 1 \<and>
   messageCount (rate_window ws0 10) = 1 \<and>
   rate_closes 0 (snd (run sample (messages 0 (replicate 25 (10, None))))) = 0 \<and>
   rate_closes 0 (snd (run sample (messages 0 (replicate 26 (10, None))))) = 1 \<and>
   rate_closes 0 (snd (run sample (messages 0 (replicate 40 (10, None))))) \<le> 1 \<and>
   snd (on_message busy 0 20 None) =
     [Close 0 1008 ''Rate limit exceeded'',
      ConsoleError ''WebSocket connection c0 closed due to rate limit exceeded.'' None] \<and>
   snd (on_message busy 0 2000 None) =
     [ConsoleError ''Error occured in WebSocket message callback:'' (Some SyntaxError)]"
proof -
  note a = rate_limiting[OF sample_heap0, of 2000 None "messages 0 (replicate 40 (10, None))"
      "replicate 25 (10, None)"]
  note b = rate_limiting[OF sample_heap0, of 10 None "[]" "replicate 26 (10, None)"]
  note c = rate_limiting[OF busy_heap0, of 20 None "[]" "[]"]
  note d = rate_limiting[OF busy_heap0, of 2000 None "[]" "[]"]
  have r1: "messageCount (rate_window ws0 2000) = 1" "messageWindow (rate_window ws0 2000) = 2000"
    "messageCount (rate_window ws0 10) = 1"
    "messageCount (rate_window (ws0\<lparr>messageCount := 25\<rparr>) 20) = 26"
    "messageCount (rate_window (ws0\<lparr>messageCount := 25\<rparr>) 2000) = 1"
    by (simp_all add: rate_window_def ws0_def Let_def)
  have e1: "rate_closes 0 (snd (run sample (messages 0 (replicate 25 (10, None))))) = 0"
    using a by (simp add: ws0_def)
  have e2: "rate_closes 0 (snd (run sample (messages 0 (replicate 26 (10, None))))) = 1"
    using b by (simp add: ws0_def)
  have e3: "rate_closes 0 (snd (run sample (messages 0 (replicate 40 (10, None))))) \<le> 1"
    using a not_allocates_messages[of 0 "replicate 40 (10, None)"] by blast
  have e4: "snd (on_message busy 0 20 None) =
     [Close 0 1008 ''Rate limit exceeded'',
      ConsoleError ''WebSocket connection c0 closed due to rate limit exceeded.'' None]"
    using c r1 by (simp add: ws0_def)
  have e5: "snd (on_message busy 0 2000 None) =
     [ConsoleError ''Error occured in WebSocket message callback:'' (Some SyntaxError)]"
    using d r1 by (simp add: try_route_def route_def)
  show ?thesis using sample_heap0 busy_heap0 r1 e1 e2 e3 e4 e5 by simp
qed

section \<open>The invariant holds in the reachable states\<close>

text \<open>Events that change neither a table nor a binding.\<close>

lemma inv_cong:
  assumes "clients s' = clients s" "deviceIdClients s' = deviceIdClients s"
    "productIdClients s' = productIdClients s" "wss_clients s' = wss_clients s"
    "bindings s' = bindings s"
  shows "inv s' = inv s"
  using assms
  by (simp add: inv_def inv_sockets_def inv_clients_def inv_devices_def inv_products_def
      inv_registered_def)

lemma bindings_ws_close: "bindings (ws_close s r) = bindings s"
  by (rule ext) (auto simp: bindings_def ws_close_def binding_of_def split: option.splits)

lemma bindings_ws_terminate: "bindings (ws_terminate s r) = bindings s"
  by (rule ext) (auto simp: bindings_def ws_terminate_def binding_of_def split: option.splits)

lemma tables_ws_close:
  "clients (ws_close s r) = clients s \<and> deviceIdClients (ws_close s r) = deviceIdClients s \<and>
   productIdClients (ws_close s r) = productIdClients s \<and> wss_clients (ws_close s r) = wss_clients s"
  by (simp add: ws_close_def split: option.splits)

lemma tables_ws_terminate:
  "clients (ws_terminate s r) = clients s \<and> deviceIdClients (ws_terminate s r) = deviceIdClients s \<and>
   productIdClients (ws_terminate s r) = productIdClients s \<and>
   wss_clients (ws_terminate s r) = wss_clients s"
  by (simp add: ws_terminate_def split: option.splits)

lemma binding_of_rate_window: "binding_of (rate_window w now) = binding_of w"
  by (simp add: binding_of_def rate_window_def Let_def)

lemma bindings_heap_update:
  "heap s r = Some w \<Longrightarrow> binding_of w' = binding_of w \<Longrightarrow>
   bindings (s\<lparr>heap := (heap s)(r \<mapsto> w')\<rparr>) = bindings s"
  by (rule ext) (simp add: bindings_def)

lemma bindings_on_message: "bindings (fst (on_message s r now parsed)) = bindings s"
proof (cases "heap s r")
  case None
  then show ?thesis by (simp add: on_message_def)
next
  case (Some w)
  have a: "bindings (s\<lparr>heap := (heap s)(r \<mapsto> rate_window w now)\<rparr>) = bindings s"
    by (rule bindings_heap_update[OF Some binding_of_rate_window])
  have b: "bindings (s\<lparr>heap := (heap s)(r \<mapsto> rate_window w now\<lparr>isTerminating := True\<rparr>)\<rparr>) = bindings s"
    by (rule bindings_heap_update[OF Some])
       (simp add: binding_of_def rate_window_fields)
  show ?thesis using Some a b
    by (simp add: on_message_def Let_def bindings_ws_close)
qed

lemma tables_on_message:
  "clients (fst (on_message s r now parsed)) = clients s \<and>
   deviceIdClients (fst (on_message s r now parsed)) = deviceIdClients s \<and>
   productIdClients (fst (on_message s r now parsed)) = productIdClients s \<and>
   wss_clients (fst (on_message s r now parsed)) = wss_clients s"
  by (simp add: on_message_def Let_def tables_ws_close split: option.splits)

lemma bindings_on_pong: "bindings (on_pong s r) = bindings s"
  by (rule ext) (auto simp: bindings_def on_pong_def binding_of_def split: option.splits)

lemma tables_on_pong:
  "clients (on_pong s r) = clients s \<and> deviceIdClients (on_pong s r) = deviceIdClients s \<and>
   productIdClients (on_pong s r) = productIdClients s \<and> wss_clients (on_pong s r) = wss_clients s"
  by (simp add: on_pong_def split: option.splits)

lemma bindings_heartbeat_each: "bindings (fst (heartbeat_each s r)) = bindings s"
proof (cases "heap s r")
  case None
  then show ?thesis by (simp add: heartbeat_each_def)
next
  case (Some w)
  have "bindings (s\<lparr>heap := (heap s)(r \<mapsto> w\<lparr>isAlive := False\<rparr>)\<rparr>) = bindings s"
    by (rule bindings_heap_update[OF Some]) (simp add: binding_of_def)
  then show ?thesis using Some by (simp add: heartbeat_each_def bindings_ws_terminate)
qed

lemma tables_heartbeat_each:
  "clients (fst (heartbeat_each s r)) = clients s \<and>
   deviceIdClients (fst (heartbeat_each s r)) = deviceIdClients s \<and>
   productIdClients (fst (heartbeat_each s r)) = productIdClients s \<and>
   wss_clients (fst (heartbeat_each s r)) = wss_clients s"
  by (simp add: heartbeat_each_def tables_ws_terminate split: option.splits)

lemma heartbeat_loop_keeps:
  "bindings (fst (heartbeat_loop s rs)) = bindings s \<and>
   clients (fst (heartbeat_loop s rs)) = clients s \<and>
   deviceIdClients (fst (heartbeat_loop s rs)) = deviceIdClients s \<and>
   productIdClients (fst (heartbeat_loop s rs)) = productIdClients s \<and>
   wss_clients (fst (heartbeat_loop s rs)) = wss_clients s"
  by (induction rs arbitrary: s)
     (simp_all add: fst_heartbeat_loop_Cons bindings_heartbeat_each tables_heartbeat_each
        del: heartbeat_loop.simps(2))

lemma wss_clients_on_connection:
  "wss_clients (fst (on_connection s r uuid now url)) = wss_clients s @ [r]"
  by (simp add: on_connection_def Let_def tables_ws_close split: option.splits prod.splits)

lemma clients_on_connection:
  "clients (fst (on_connection s r uuid now (Some (d, p)))) =
     (if accepted d p then (clients s)(uuid \<mapsto> r) else clients s)"
  by (auto simp: on_connection_def Let_def tables_ws_close accepted_def)

lemma deviceIdClients_on_connection:
  "deviceIdClients (fst (on_connection s r uuid now (Some (d, p)))) =
     (if accepted d p \<and> truthy d
      then (deviceIdClients s)(the d \<mapsto> bucket (deviceIdClients s) (the d) @ [uuid])
      else deviceIdClients s)"
  by (auto simp: on_connection_def Let_def tables_ws_close accepted_def)

lemma productIdClients_on_connection:
  "productIdClients (fst (on_connection s r uuid now (Some (d, p)))) =
     (if accepted d p \<and> truthy p
      then (productIdClients s)(the p \<mapsto> bucket (productIdClients s) (the p) @ [uuid])
      else productIdClients s)"
  by (auto simp: on_connection_def Let_def tables_ws_close accepted_def)

lemma bindings_on_connection:
  "bindings (fst (on_connection s r uuid now (Some (d, p)))) =
     (bindings s)(r \<mapsto> \<lparr>b_clientId = uuid,
        b_deviceId = (if accepted d p \<and> truthy d then d else None),
        b_productId = (if accepted d p \<and> truthy p then p else None),
        b_listening = accepted d p, b_closed = False\<rparr>)"
  by (rule ext)
     (auto simp: on_connection_def Let_def accepted_def bindings_def binding_of_def ws_close_def)

lemmas on_connection_view = wss_clients_on_connection clients_on_connection
  deviceIdClients_on_connection productIdClients_on_connection bindings_on_connection

lemma truthy_the: "truthy d \<Longrightarrow> d = Some (the d) \<and> the d \<noteq> []"
  by (cases d) auto

lemma inv_sockets_connection:
  assumes "inv_sockets s" "bindings s r = None"
    "\<forall>r' b. bindings s r' = Some b \<longrightarrow> b_clientId b \<noteq> uuid"
  shows "inv_sockets (fst (on_connection s r uuid now (Some (d, p))))"
proof -
  have nr: "r \<notin> set (wss_clients s)" using assms(1,2) by (auto simp: inv_sockets_def)
  show ?thesis
    using assms nr unfolding inv_sockets_def on_connection_view
    by (auto split: if_splits)
qed

lemma inv_clients_connection:
  assumes "inv_sockets s" "inv_clients s" "bindings s r = None"
  shows "inv_clients (fst (on_connection s r uuid now (Some (d, p))))"
  unfolding inv_clients_def
proof (intro allI impI)
  fix c r'
  let ?s' = "fst (on_connection s r uuid now (Some (d, p)))"
  assume c: "clients ?s' c = Some r'"
  show "r' \<in> set (wss_clients ?s') \<and>
        (\<exists>b. bindings ?s' r' = Some b \<and> b_clientId b = c \<and> b_listening b)"
  proof (cases "accepted d p \<and> c = uuid")
    case True
    then show ?thesis using c by (auto simp: on_connection_view)
  next
    case False
    then have old: "clients s c = Some r'" using c
      by (auto simp: on_connection_view split: if_splits)
    then obtain b where b: "r' \<in> set (wss_clients s)" "bindings s r' = Some b"
        "b_clientId b = c" "b_listening b"
      using assms(2) by (auto simp: inv_clients_def)
    have "r' \<noteq> r" using b(2) assms(3) by auto
    then show ?thesis using b by (simp add: on_connection_view)
  qed
qed

lemma fresh_not_in_clients:
  assumes "inv_clients s" "\<forall>r' b. bindings s r' = Some b \<longrightarrow> b_clientId b \<noteq> uuid"
  shows "clients s uuid = None"
proof (cases "clients s uuid")
  case None
  then show ?thesis .
next
  case (Some r')
  then show ?thesis using assms by (auto simp: inv_clients_def)
qed

lemma fresh_not_in_devices:
  assumes "inv_clients s" "inv_devices s" "\<forall>r' b. bindings s r' = Some b \<longrightarrow> b_clientId b \<noteq> uuid"
  shows "uuid \<notin> set (bucket (deviceIdClients s) X)"
proof
  assume a: "uuid \<in> set (bucket (deviceIdClients s) X)"
  then obtain ids where ids: "deviceIdClients s X = Some ids" "uuid \<in> set ids"
    by (cases "deviceIdClients s X") (auto simp: bucket_def)
  then obtain r' where "clients s uuid = Some r'"
    using assms(2) by (fastforce simp: inv_devices_def)
  then show False using fresh_not_in_clients[OF assms(1,3)] by simp
qed

lemma fresh_not_in_products:
  assumes "inv_clients s" "inv_products s" "\<forall>r' b. bindings s r' = Some b \<longrightarrow> b_clientId b \<noteq> uuid"
  shows "uuid \<notin> set (bucket (productIdClients s) X)"
proof
  assume a: "uuid \<in> set (bucket (productIdClients s) X)"
  then obtain ids where ids: "productIdClients s X = Some ids" "uuid \<in> set ids"
    by (cases "productIdClients s X") (auto simp: bucket_def)
  then obtain r' where "clients s uuid = Some r'"
    using assms(2) by (fastforce simp: inv_products_def)
  then show False using fresh_not_in_clients[OF assms(1,3)] by simp
qed

lemma inv_devices_connection:
  assumes "inv_clients s" "inv_devices s" "bindings s r = None"
    "\<forall>r' b. bindings s r' = Some b \<longrightarrow> b_clientId b \<noteq> uuid"
  shows "inv_devices (fst (on_connection s r uuid now (Some (d, p))))"
  unfolding inv_devices_def
proof (intro allI impI)
  fix X ids
  let ?s' = "fst (on_connection s r uuid now (Some (d, p)))"
  assume b: "deviceIdClients ?s' X = Some ids"
  have fresh: "uuid \<notin> set (bucket (deviceIdClients s) X)"
    by (rule fresh_not_in_devices[OF assms(1,2,4)])
  have old: "\<And>ids0. deviceIdClients s X = Some ids0 \<Longrightarrow> ids0 \<noteq> [] \<and> distinct ids0 \<and>
     (\<forall>c\<in>set ids0. \<exists>r' b. clients ?s' c = Some r' \<and> bindings ?s' r' = Some b \<and>
                         b_deviceId b = Some X \<and> b_productId b = None)"
  proof -
    fix ids0 assume i0: "deviceIdClients s X = Some ids0"
    have "\<forall>c\<in>set ids0. \<exists>r' b. clients ?s' c = Some r' \<and> bindings ?s' r' = Some b \<and>
                         b_deviceId b = Some X \<and> b_productId b = None"
    proof
      fix c assume c: "c \<in> set ids0"
      then obtain r' b' where rb: "clients s c = Some r'" "bindings s r' = Some b'"
          "b_deviceId b' = Some X" "b_productId b' = None"
        using assms(2) i0 by (fastforce simp: inv_devices_def)
      have "c \<noteq> uuid" using fresh c i0 by (auto simp: bucket_def)
      moreover have "r' \<noteq> r" using rb(2) assms(3) by auto
      ultimately show "\<exists>r' b. clients ?s' c = Some r' \<and> bindings ?s' r' = Some b \<and>
                         b_deviceId b = Some X \<and> b_productId b = None"
        using rb by (auto simp: on_connection_view)
    qed
    then show "ids0 \<noteq> [] \<and> distinct ids0 \<and>
     (\<forall>c\<in>set ids0. \<exists>r' b. clients ?s' c = Some r' \<and> bindings ?s' r' = Some b \<and>
                         b_deviceId b = Some X \<and> b_productId b = None)"
      using assms(2) i0 by (auto simp: inv_devices_def)
  qed
  show "ids \<noteq> [] \<and> distinct ids \<and>
     (\<forall>c\<in>set ids. \<exists>r' b. clients ?s' c = Some r' \<and> bindings ?s' r' = Some b \<and>
                         b_deviceId b = Some X \<and> b_productId b = None)"
  proof (cases "accepted d p \<and> truthy d \<and> X = the d")
    case False
    then have "deviceIdClients s X = Some ids" using b
      by (auto simp: on_connection_view split: if_splits)
    then show ?thesis by (rule old)
  next
    case True
    then have ids: "ids = bucket (deviceIdClients s) X @ [uuid]" using b
      by (auto simp: on_connection_view)
    have self: "clients ?s' uuid = Some r \<and> (\<exists>b. bindings ?s' r = Some b \<and>
                         b_deviceId b = Some X \<and> b_productId b = None)"
      using True truthy_the[of d] by (auto simp: on_connection_view accepted_def)
    show ?thesis
    proof (cases "deviceIdClients s X")
      case None
      then show ?thesis using ids self by (auto simp: bucket_def)
    next
      case (Some ids0)
      then show ?thesis using ids self old[OF Some] fresh by (auto simp: bucket_def)
    qed
  qed
qed

lemma inv_products_connection:
  assumes "inv_clients s" "inv_products s" "bindings s r = None"
    "\<forall>r' b. bindings s r' = Some b \<longrightarrow> b_clientId b \<noteq> uuid"
  shows "inv_products (fst (on_connection s r uuid now (Some (d, p))))"
  unfolding inv_products_def
proof (intro allI impI)
  fix X ids
  let ?s' = "fst (on_connection s r uuid now (Some (d, p)))"
  assume b: "productIdClients ?s' X = Some ids"
  have fresh: "uuid \<notin> set (bucket (productIdClients s) X)"
    by (rule fresh_not_in_products[OF assms(1,2,4)])
  have old: "\<And>ids0. productIdClients s X = Some ids0 \<Longrightarrow> ids0 \<noteq> [] \<and> distinct ids0 \<and>
     (\<forall>c\<in>set ids0. \<exists>r' b. clients ?s' c = Some r' \<and> bindings ?s' r' = Some b \<and>
                         b_productId b = Some X \<and> b_deviceId b = None)"
  proof -
    fix ids0 assume i0: "productIdClients s X = Some ids0"
    have "\<forall>c\<in>set ids0. \<exists>r' b. clients ?s' c = Some r' \<and> bindings ?s' r' = Some b \<and>
                         b_productId b = Some X \<and> b_deviceId b = None"
    proof
      fix c assume c: "c \<in> set ids0"
      then obtain r' b' where rb: "clients s c = Some r'" "bindings s r' = Some b'"
          "b_productId b' = Some X" "b_deviceId b' = None"
        using assms(2) i0 by (fastforce simp: inv_products_def)
      have "c \<noteq> uuid" using fresh c i0 by (auto simp: bucket_def)
      moreover have "r' \<noteq> r" using rb(2) assms(3) by auto
      ultimately show "\<exists>r' b. clients ?s' c = Some r' \<and> bindings ?s' r' = Some b \<and>
                         b_productId b = Some X \<and> b_deviceId b = None"
        using rb by (auto simp: on_connection_view)
    qed
    then show "ids0 \<noteq> [] \<and> distinct ids0 \<and>
     (\<forall>c\<in>set ids0. \<exists>r' b. clients ?s' c = Some r' \<and> bindings ?s' r' = Some b \<and>
                         b_productId b = Some X \<and> b_deviceId b = None)"
      using assms(2) i0 by (auto simp: inv_products_def)
  qed
  show "ids \<noteq> [] \<and> distinct ids \<and>
     (\<forall>c\<in>set ids. \<exists>r' b. clients ?s' c = Some r' \<and> bindings ?s' r' = Some b \<and>
                         b_productId b = Some X \<and> b_deviceId b = None)"
  proof (cases "accepted d p \<and> truthy p \<and> X = the p")
    case False
    then have "productIdClients s X = Some ids" using b
      by (auto simp: on_connection_view split: if_splits)
    then show ?thesis by (rule old)
  next
    case True
    then have ids: "ids = bucket (productIdClients s) X @ [uuid]" using b
      by (auto simp: on_connection_view)
    have self: "clients ?s' uuid = Some r \<and> (\<exists>b. bindings ?s' r = Some b \<and>
                         b_productId b = Some X \<and> b_deviceId b = None)"
      using True truthy_the[of p] by (auto simp: on_connection_view accepted_def)
    show ?thesis
    proof (cases "productIdClients s X")
      case None
      then show ?thesis using ids self by (auto simp: bucket_def)
    next
      case (Some ids0)
      then show ?thesis using ids self old[OF Some] fresh by (auto simp: bucket_def)
    qed
  qed
qed

lemma bucket_deviceIdClients_on_connection:
  "bucket (deviceIdClients (fst (on_connection s r uuid now (Some (d, p))))) X =
     (if accepted d p \<and> truthy d \<and> X = the d then bucket (deviceIdClients s) X @ [uuid]
      else bucket (deviceIdClients s) X)"
  by (simp add: on_connection_view bucket_def)

lemma bucket_productIdClients_on_connection:
  "bucket (productIdClients (fst (on_connection s r uuid now (Some (d, p))))) X =
     (if accepted d p \<and> truthy p \<and> X = the p then bucket (productIdClients s) X @ [uuid]
      else bucket (productIdClients s) X)"
  by (simp add: on_connection_view bucket_def)

lemma inv_registered_connection:
  assumes "inv_registered s" "bindings s r = None"
    "\<forall>r' b. bindings s r' = Some b \<longrightarrow> b_clientId b \<noteq> uuid"
  shows "inv_registered (fst (on_connection s r uuid now (Some (d, p))))"
  unfolding inv_registered_def
proof (intro allI impI)
  fix r' b
  let ?s' = "fst (on_connection s r uuid now (Some (d, p)))"
  assume b: "bindings ?s' r' = Some b" and l: "b_listening b" and m: "r' \<in> set (wss_clients ?s')"
  show "clients ?s' (b_clientId b) = Some r' \<and>
     ((\<exists>X. X \<noteq> [] \<and> b_deviceId b = Some X \<and> b_productId b = None \<and>
           b_clientId b \<in> set (bucket (deviceIdClients ?s') X)) \<or>
      (\<exists>X. X \<noteq> [] \<and> b_productId b = Some X \<and> b_deviceId b = None \<and>
           b_clientId b \<in> set (bucket (productIdClients ?s') X)))"
  proof (cases "r' = r")
    case True
    then have acc: "accepted d p" using b l by (auto simp: on_connection_view)
    have cl: "clients ?s' uuid = Some r" using acc by (simp add: clients_on_connection)
    show ?thesis
    proof (cases "truthy d")
      case True
      then have np: "\<not> truthy p" using acc by (simp add: accepted_def)
      have bf: "b_clientId b = uuid" "b_deviceId b = Some (the d)" "b_productId b = None"
        using \<open>r' = r\<close> b acc True np truthy_the[OF True] by (auto simp: bindings_on_connection)
      have bk: "uuid \<in> set (bucket (deviceIdClients ?s') (the d))"
        using acc True by (simp add: bucket_deviceIdClients_on_connection)
      have "the d \<noteq> [] \<and> b_deviceId b = Some (the d) \<and> b_productId b = None \<and>
           b_clientId b \<in> set (bucket (deviceIdClients ?s') (the d))"
        using bf bk truthy_the[OF True] by simp
      then show ?thesis using cl bf(1) \<open>r' = r\<close> by blast
    next
      case False
      then have tp: "truthy p" using acc by (simp add: accepted_def)
      have bf: "b_clientId b = uuid" "b_productId b = Some (the p)" "b_deviceId b = None"
        using \<open>r' = r\<close> b acc False tp truthy_the[OF tp] by (auto simp: bindings_on_connection)
      have bk: "uuid \<in> set (bucket (productIdClients ?s') (the p))"
        using acc tp by (simp add: bucket_productIdClients_on_connection)
      have "the p \<noteq> [] \<and> b_productId b = Some (the p) \<and> b_deviceId b = None \<and>
           b_clientId b \<in> set (bucket (productIdClients ?s') (the p))"
        using bf bk truthy_the[OF tp] by simp
      then show ?thesis using cl bf(1) \<open>r' = r\<close> by blast
    qed
  next
    case False
    then have old: "bindings s r' = Some b" "r' \<in> set (wss_clients s)"
      using b m by (auto simp: on_connection_view)
    have ne: "b_clientId b \<noteq> uuid" using assms(3) old(1) by blast
    have reg: "clients s (b_clientId b) = Some r' \<and>
     ((\<exists>X. X \<noteq> [] \<and> b_deviceId b = Some X \<and> b_productId b = None \<and>
           b_clientId b \<in> set (bucket (deviceIdClients s) X)) \<or>
      (\<exists>X. X \<noteq> [] \<and> b_productId b = Some X \<and> b_deviceId b = None \<and>
           b_clientId b \<in> set (bucket (productIdClients s) X)))"
      using assms(1) old l unfolding inv_registered_def by blast
    have c: "clients ?s' (b_clientId b) = Some r'"
      using reg ne by (simp add: on_connection_view)
    have mono: "\<And>X. b_clientId b \<in> set (bucket (deviceIdClients s) X) \<Longrightarrow>
                    b_clientId b \<in> set (bucket (deviceIdClients ?s') X)"
      "\<And>X. b_clientId b \<in> set (bucket (productIdClients s) X) \<Longrightarrow>
                    b_clientId b \<in> set (bucket (productIdClients ?s') X)"
      by (auto simp: bucket_deviceIdClients_on_connection bucket_productIdClients_on_connection)
    from reg mono have "(\<exists>X. X \<noteq> [] \<and> b_deviceId b = Some X \<and> b_productId b = None \<and>
           b_clientId b \<in> set (bucket (deviceIdClients ?s') X)) \<or>
      (\<exists>X. X \<noteq> [] \<and> b_productId b = Some X \<and> b_deviceId b = None \<and>
           b_clientId b \<in> set (bucket (productIdClients ?s') X))"
      by blast
    with c show ?thesis by simp
  qed
qed

lemma inv_connection_parsed:
  assumes "inv s" "enabled s (Connection r uuid now (Some (d, p)))"
  shows "inv (fst (step s (Connection r uuid now (Some (d, p)))))"
proof -
  have n: "bindings s r = None" using assms(2) by (simp add: bindings_def)
  have f: "\<forall>r' b. bindings s r' = Some b \<longrightarrow> b_clientId b \<noteq> uuid"
    using assms(2) by (fastforce simp: bindings_def binding_of_def)
  show ?thesis using assms(1) inv_sockets_connection[OF _ n f] inv_clients_connection[OF _ _ n]
      inv_devices_connection[OF _ _ n f] inv_products_connection[OF _ _ n f]
      inv_registered_connection[OF _ n f]
    by (simp add: inv_def)
qed

text \<open>
  A socket whose request has no URL is, for the tables, a rejected one: it is in no table
  and has no handlers.
\<close>

lemma tables_on_connection_throw:
  "clients (fst (on_connection s r uuid now None)) = clients s"
  "deviceIdClients (fst (on_connection s r uuid now None)) = deviceIdClients s"
  "productIdClients (fst (on_connection s r uuid now None)) = productIdClients s"
  by (simp_all add: on_connection_def Let_def)

lemma bindings_on_connection_throw:
  "bindings (fst (on_connection s r uuid now None)) =
     (bindings s)(r \<mapsto> \<lparr>b_clientId = uuid, b_deviceId = None, b_productId = None,
        b_listening = False, b_closed = False\<rparr>)"
  by (rule ext) (simp add: on_connection_def Let_def bindings_def binding_of_def)

lemma inv_connection:
  assumes "inv s" "enabled s (Connection r uuid now url)"
  shows "inv (fst (step s (Connection r uuid now url)))"
proof (cases url)
  case None
  have "inv (fst (on_connection s r uuid now None)) =
        inv (fst (on_connection s r uuid now (Some (None, None))))"
    by (rule inv_cong)
       (simp_all add: on_connection_view tables_on_connection_throw
          bindings_on_connection_throw accepted_def)
  moreover have "enabled s (Connection r uuid now (Some (None, None)))"
    using assms(2) by simp
  ultimately show ?thesis
    using None inv_connection_parsed[OF assms(1), of r uuid now None None] by simp
next
  case (Some a)
  obtain d p where "a = (d, p)" by (cases a)
  then show ?thesis using Some inv_connection_parsed assms by simp
qed

lemma wss_clients_emit_close:
  "heap s r = Some w \<Longrightarrow> wss_clients (emit_close s r) = removeAll r (wss_clients s)"
  by (simp add: emit_close_def Let_def wss_clients_on_close)

lemma bindings_emit_close:
  "heap s r = Some w \<Longrightarrow>
   bindings (emit_close s r) = (bindings s)(r \<mapsto> (binding_of w)\<lparr>b_closed := True\<rparr>)"
  by (rule ext) (simp add: emit_close_def Let_def bindings_def heap_on_close binding_of_def)

lemma clients_emit_close:
  "heap s r = Some w \<Longrightarrow> clients (emit_close s r) =
     (if listening w then (clients s)(clientId w := None) else clients s)"
  by (simp add: emit_close_def Let_def clients_on_close)

lemma deviceIdClients_emit_close:
  "heap s r = Some w \<Longrightarrow> deviceIdClients (emit_close s r) =
     (if listening w \<and> truthy (deviceId w)
      then remove_from (deviceIdClients s) (the (deviceId w)) (clientId w)
      else deviceIdClients s)"
  by (simp add: emit_close_def Let_def deviceIdClients_on_close)

lemma productIdClients_emit_close:
  "heap s r = Some w \<Longrightarrow> productIdClients (emit_close s r) =
     (if listening w \<and> truthy (productId w)
      then remove_from (productIdClients s) (the (productId w)) (clientId w)
      else productIdClients s)"
  by (simp add: emit_close_def Let_def productIdClients_on_close)

lemmas emit_close_view = wss_clients_emit_close bindings_emit_close clients_emit_close
  deviceIdClients_emit_close productIdClients_emit_close

lemma remove_from_Some:
  "remove_from m k c X = Some ids \<Longrightarrow>
   \<exists>ids0. m X = Some ids0 \<and> (X = k \<longrightarrow> ids \<noteq> []) \<and>
          ids = (if X = k then filter (\<lambda>e. e \<noteq> c) ids0 else ids0)"
  by (cases "m k") (auto simp: remove_from_def bucket_def Let_def split: if_splits)

lemma in_bucket_remove_from:
  "e \<noteq> c \<Longrightarrow> e \<in> set (bucket m X) \<Longrightarrow> e \<in> set (bucket (remove_from m k c) X)"
  by (cases "X = k") (simp_all add: bucket_remove_from_same bucket_remove_from_other)

lemma inv_sockets_close:
  assumes "inv_sockets s" "heap s r = Some w"
  shows "inv_sockets (emit_close s r)"
proof -
  let ?s' = "emit_close s r"
  note view = emit_close_view[OF assms(2)]
  have i: "distinct (wss_clients s)"
    "\<And>r b. bindings s r = Some b \<Longrightarrow> b_closed b \<longleftrightarrow> r \<notin> set (wss_clients s)"
    "\<And>r. r \<in> set (wss_clients s) \<Longrightarrow> bindings s r \<noteq> None"
    "\<And>r r' b b'. bindings s r = Some b \<Longrightarrow> bindings s r' = Some b' \<Longrightarrow>
                   b_clientId b = b_clientId b' \<Longrightarrow> r = r'"
    using assms(1) unfolding inv_sockets_def by blast+
  have bw: "bindings s r = Some (binding_of w)" using assms(2) by (simp add: bindings_def)
  have same: "\<And>r' b. bindings ?s' r' = Some b \<Longrightarrow>
      \<exists>b0. bindings s r' = Some b0 \<and> b_clientId b0 = b_clientId b \<and>
           (r' \<noteq> r \<longrightarrow> b0 = b) \<and> (r' = r \<longrightarrow> b_closed b)"
    using bw by (auto simp: view split: if_splits)
  have a: "distinct (wss_clients ?s')" using i(1) by (simp add: view distinct_removeAll)
  have b: "\<forall>r' b. bindings ?s' r' = Some b \<longrightarrow> (b_closed b \<longleftrightarrow> r' \<notin> set (wss_clients ?s'))"
  proof (intro allI impI)
    fix r' b assume h: "bindings ?s' r' = Some b"
    from same[OF h] obtain b0 where b0: "bindings s r' = Some b0" "r' \<noteq> r \<longrightarrow> b0 = b"
        "r' = r \<longrightarrow> b_closed b" by blast
    show "b_closed b \<longleftrightarrow> r' \<notin> set (wss_clients ?s')"
    proof (cases "r' = r")
      case True
      then show ?thesis using b0 by (simp add: view)
    next
      case False
      then show ?thesis using b0 i(2)[OF b0(1)] by (simp add: view)
    qed
  qed
  have c: "\<forall>r'\<in>set (wss_clients ?s'). bindings ?s' r' \<noteq> None"
    using i(3) by (auto simp: view)
  have d: "\<forall>r1 r2 b1 b2. bindings ?s' r1 = Some b1 \<longrightarrow> bindings ?s' r2 = Some b2 \<longrightarrow>
                   b_clientId b1 = b_clientId b2 \<longrightarrow> r1 = r2"
  proof (intro allI impI)
    fix r1 r2 b1 b2
    assume h1: "bindings ?s' r1 = Some b1" and h2: "bindings ?s' r2 = Some b2"
      and e: "b_clientId b1 = b_clientId b2"
    from same[OF h1] obtain c1 where c1: "bindings s r1 = Some c1" "b_clientId c1 = b_clientId b1"
      by blast
    from same[OF h2] obtain c2 where c2: "bindings s r2 = Some c2" "b_clientId c2 = b_clientId b2"
      by blast
    show "r1 = r2" using i(4)[OF c1(1) c2(1)] c1(2) c2(2) e by simp
  qed
  show ?thesis unfolding inv_sockets_def using a b c d by blast
qed

lemma inv_clients_close:
  assumes "inv_clients s" "heap s r = Some w"
  shows "inv_clients (emit_close s r)"
  unfolding inv_clients_def
proof (intro allI impI)
  fix c r'
  let ?s' = "emit_close s r"
  assume c: "clients ?s' c = Some r'"
  then have old: "clients s c = Some r'" and ne: "listening w \<longrightarrow> c \<noteq> clientId w"
    by (auto simp: emit_close_view[OF assms(2)] split: if_splits)
  then obtain b where b: "r' \<in> set (wss_clients s)" "bindings s r' = Some b"
      "b_clientId b = c" "b_listening b"
    using assms(1) by (auto simp: inv_clients_def)
  have "r' \<noteq> r" using b ne assms(2) by (auto simp: bindings_def binding_of_def)
  then show "r' \<in> set (wss_clients ?s') \<and>
        (\<exists>b. bindings ?s' r' = Some b \<and> b_clientId b = c \<and> b_listening b)"
    using b by (simp add: emit_close_view[OF assms(2)])
qed

lemma inv_devicesD:
  "inv_devices s \<Longrightarrow> deviceIdClients s X = Some ids \<Longrightarrow> c \<in> set ids \<Longrightarrow>
   \<exists>r b. clients s c = Some r \<and> bindings s r = Some b \<and> b_deviceId b = Some X \<and>
         b_productId b = None"
  unfolding inv_devices_def by blast

lemma inv_productsD:
  "inv_products s \<Longrightarrow> productIdClients s X = Some ids \<Longrightarrow> c \<in> set ids \<Longrightarrow>
   \<exists>r b. clients s c = Some r \<and> bindings s r = Some b \<and> b_productId b = Some X \<and>
         b_deviceId b = None"
  unfolding inv_products_def by blast

lemma inv_registeredD:
  "inv_registered s \<Longrightarrow> bindings s r = Some b \<Longrightarrow> b_listening b \<Longrightarrow>
   r \<in> set (wss_clients s) \<Longrightarrow>
   clients s (b_clientId b) = Some r \<and>
     ((\<exists>X. X \<noteq> [] \<and> b_deviceId b = Some X \<and> b_productId b = None \<and>
           b_clientId b \<in> set (bucket (deviceIdClients s) X)) \<or>
      (\<exists>X. X \<noteq> [] \<and> b_productId b = Some X \<and> b_deviceId b = None \<and>
           b_clientId b \<in> set (bucket (productIdClients s) X)))"
  unfolding inv_registered_def by blast

lemma registered_socket:
  assumes "inv_registered s" "heap s r = Some w" "listening w" "r \<in> set (wss_clients s)"
  shows "clients s (clientId w) = Some r \<and>
     ((\<exists>X. X \<noteq> [] \<and> deviceId w = Some X \<and> productId w = None \<and>
           clientId w \<in> set (bucket (deviceIdClients s) X)) \<or>
      (\<exists>X. X \<noteq> [] \<and> productId w = Some X \<and> deviceId w = None \<and>
           clientId w \<in> set (bucket (productIdClients s) X)))"
proof -
  have bw: "bindings s r = Some (binding_of w)" using assms(2) by (simp add: bindings_def)
  have l: "b_listening (binding_of w)" using assms(3) by (simp add: binding_of_def)
  show ?thesis using inv_registeredD[OF assms(1) bw l assms(4)] by (simp add: binding_of_def)
qed

lemma closing_id_only_in_own_device_bucket:
  assumes "inv_devices s" "inv_registered s" "heap s r = Some w" "listening w"
    "r \<in> set (wss_clients s)" "deviceIdClients s X = Some ids" "clientId w \<in> set ids"
  shows "truthy (deviceId w) \<and> X = the (deviceId w)"
proof -
  obtain r' b' where rb: "clients s (clientId w) = Some r'" "bindings s r' = Some b'"
      "b_deviceId b' = Some X" "b_productId b' = None"
    using inv_devicesD[OF assms(1,6,7)] by blast
  have bw: "bindings s r = Some (binding_of w)" using assms(3) by (simp add: bindings_def)
  note reg = registered_socket[OF assms(2,3,4,5)]
  then have "r' = r" using rb(1) by simp
  then have "deviceId w = Some X" using rb bw by (auto simp: binding_of_def)
  then show ?thesis using reg by auto
qed

lemma closing_id_only_in_own_product_bucket:
  assumes "inv_products s" "inv_registered s" "heap s r = Some w" "listening w"
    "r \<in> set (wss_clients s)" "productIdClients s X = Some ids" "clientId w \<in> set ids"
  shows "truthy (productId w) \<and> X = the (productId w)"
proof -
  obtain r' b' where rb: "clients s (clientId w) = Some r'" "bindings s r' = Some b'"
      "b_productId b' = Some X" "b_deviceId b' = None"
    using inv_productsD[OF assms(1,6,7)] by blast
  have bw: "bindings s r = Some (binding_of w)" using assms(3) by (simp add: bindings_def)
  note reg = registered_socket[OF assms(2,3,4,5)]
  then have "r' = r" using rb(1) by simp
  then have "productId w = Some X" using rb bw by (auto simp: binding_of_def)
  then show ?thesis using reg by auto
qed

lemma inv_devices_close:
  assumes "inv_devices s" "inv_registered s" "heap s r = Some w" "r \<in> set (wss_clients s)"
  shows "inv_devices (emit_close s r)"
  unfolding inv_devices_def
proof (intro allI impI)
  fix X ids
  let ?s' = "emit_close s r"
  assume b: "deviceIdClients ?s' X = Some ids"
  let ?own = "listening w \<and> truthy (deviceId w) \<and> X = the (deviceId w)"
  have "\<exists>ids0. deviceIdClients s X = Some ids0 \<and> ids \<noteq> [] \<and>
      ids = (if ?own then filter (\<lambda>e. e \<noteq> clientId w) ids0 else ids0)"
  proof (cases "listening w \<and> truthy (deviceId w)")
    case True
    then have "remove_from (deviceIdClients s) (the (deviceId w)) (clientId w) X = Some ids"
      using b by (simp add: emit_close_view[OF assms(3)])
    from remove_from_Some[OF this] obtain ids0 where
      i0: "deviceIdClients s X = Some ids0" "X = the (deviceId w) \<longrightarrow> ids \<noteq> []"
        "ids = (if X = the (deviceId w) then filter (\<lambda>e. e \<noteq> clientId w) ids0 else ids0)"
      by blast
    have "ids0 \<noteq> []" using assms(1) i0(1) unfolding inv_devices_def by blast
    then show ?thesis using i0 True by auto
  next
    case False
    then have "deviceIdClients s X = Some ids" using b
      by (auto simp: emit_close_view[OF assms(3)])
    moreover from this have "ids \<noteq> []" using assms(1) unfolding inv_devices_def by blast
    ultimately show ?thesis using False by auto
  qed
  then obtain ids0 where ids0: "deviceIdClients s X = Some ids0" "ids \<noteq> []"
      "ids = (if ?own then filter (\<lambda>e. e \<noteq> clientId w) ids0 else ids0)"
    by blast
  have d0: "distinct ids0" using assms(1) ids0(1) unfolding inv_devices_def by blast
  have mem: "\<forall>c\<in>set ids. \<exists>r' b. clients ?s' c = Some r' \<and> bindings ?s' r' = Some b \<and>
                         b_deviceId b = Some X \<and> b_productId b = None"
  proof
    fix c assume c: "c \<in> set ids"
    then have c0: "c \<in> set ids0" using ids0(3) by (auto split: if_splits)
    then obtain r' b' where rb: "clients s c = Some r'" "bindings s r' = Some b'"
        "b_deviceId b' = Some X" "b_productId b' = None"
      using inv_devicesD[OF assms(1) ids0(1)] by blast
    have ne: "listening w \<longrightarrow> c \<noteq> clientId w"
    proof (intro impI notI)
      assume l: "listening w" and e: "c = clientId w"
      then have "?own"
        using closing_id_only_in_own_device_bucket[OF assms(1,2,3) l assms(4) ids0(1)] c0 by simp
      then show False using c e ids0(3) by simp
    qed
    have cl: "clients ?s' c = Some r'" using rb(1) ne by (simp add: emit_close_view[OF assms(3)])
    have "\<exists>b. bindings ?s' r' = Some b \<and> b_deviceId b = Some X \<and> b_productId b = None"
      using rb assms(3) by (cases "r' = r") (auto simp: emit_close_view[OF assms(3)] bindings_def binding_of_def)
    then show "\<exists>r' b. clients ?s' c = Some r' \<and> bindings ?s' r' = Some b \<and>
                         b_deviceId b = Some X \<and> b_productId b = None"
      using cl by blast
  qed
  show "ids \<noteq> [] \<and> distinct ids \<and>
     (\<forall>c\<in>set ids. \<exists>r' b. clients ?s' c = Some r' \<and> bindings ?s' r' = Some b \<and>
                         b_deviceId b = Some X \<and> b_productId b = None)"
    using ids0(2,3) d0 mem by (simp split: if_splits)
qed

lemma inv_products_close:
  assumes "inv_products s" "inv_registered s" "heap s r = Some w" "r \<in> set (wss_clients s)"
  shows "inv_products (emit_close s r)"
  unfolding inv_products_def
proof (intro allI impI)
  fix X ids
  let ?s' = "emit_close s r"
  assume b: "productIdClients ?s' X = Some ids"
  let ?own = "listening w \<and> truthy (productId w) \<and> X = the (productId w)"
  have "\<exists>ids0. productIdClients s X = Some ids0 \<and> ids \<noteq> [] \<and>
      ids = (if ?own then filter (\<lambda>e. e \<noteq> clientId w) ids0 else ids0)"
  proof (cases "listening w \<and> truthy (productId w)")
    case True
    then have "remove_from (productIdClients s) (the (productId w)) (clientId w) X = Some ids"
      using b by (simp add: emit_close_view[OF assms(3)])
    from remove_from_Some[OF this] obtain ids0 where
      i0: "productIdClients s X = Some ids0" "X = the (productId w) \<longrightarrow> ids \<noteq> []"
        "ids = (if X = the (productId w) then filter (\<lambda>e. e \<noteq> clientId w) ids0 else ids0)"
      by blast
    have "ids0 \<noteq> []" using assms(1) i0(1) unfolding inv_products_def by blast
    then show ?thesis using i0 True by auto
  next
    case False
    then have "productIdClients s X = Some ids" using b
      by (auto simp: emit_close_view[OF assms(3)])
    moreover from this have "ids \<noteq> []" using assms(1) unfolding inv_products_def by blast
    ultimately show ?thesis using False by auto
  qed
  then obtain ids0 where ids0: "productIdClients s X = Some ids0" "ids \<noteq> []"
      "ids = (if ?own then filter (\<lambda>e. e \<noteq> clientId w) ids0 else ids0)"
    by blast
  have d0: "distinct ids0" using assms(1) ids0(1) unfolding inv_products_def by blast
  have mem: "\<forall>c\<in>set ids. \<exists>r' b. clients ?s' c = Some r' \<and> bindings ?s' r' = Some b \<and>
                         b_productId b = Some X \<and> b_deviceId b = None"
  proof
    fix c assume c: "c \<in> set ids"
    then have c0: "c \<in> set ids0" using ids0(3) by (auto split: if_splits)
    then obtain r' b' where rb: "clients s c = Some r'" "bindings s r' = Some b'"
        "b_productId b' = Some X" "b_deviceId b' = None"
      using inv_productsD[OF assms(1) ids0(1)] by blast
    have ne: "listening w \<longrightarrow> c \<noteq> clientId w"
    proof (intro impI notI)
      assume l: "listening w" and e: "c = clientId w"
      then have "?own"
        using closing_id_only_in_own_product_bucket[OF assms(1,2,3) l assms(4) ids0(1)] c0 by simp
      then show False using c e ids0(3) by simp
    qed
    have cl: "clients ?s' c = Some r'" using rb(1) ne by (simp add: emit_close_view[OF assms(3)])
    have "\<exists>b. bindings ?s' r' = Some b \<and> b_productId b = Some X \<and> b_deviceId b = None"
      using rb assms(3) by (cases "r' = r") (auto simp: emit_close_view[OF assms(3)] bindings_def binding_of_def)
    then show "\<exists>r' b. clients ?s' c = Some r' \<and> bindings ?s' r' = Some b \<and>
                         b_productId b = Some X \<and> b_deviceId b = None"
      using cl by blast
  qed
  show "ids \<noteq> [] \<and> distinct ids \<and>
     (\<forall>c\<in>set ids. \<exists>r' b. clients ?s' c = Some r' \<and> bindings ?s' r' = Some b \<and>
                         b_productId b = Some X \<and> b_deviceId b = None)"
    using ids0(2,3) d0 mem by (simp split: if_splits)
qed

lemma inv_registered_close:
  assumes "inv_sockets s" "inv_registered s" "heap s r = Some w"
  shows "inv_registered (emit_close s r)"
  unfolding inv_registered_def
proof (intro allI impI)
  fix r' b
  let ?s' = "emit_close s r"
  note view = emit_close_view[OF assms(3)]
  assume b: "bindings ?s' r' = Some b" and l: "b_listening b" and m: "r' \<in> set (wss_clients ?s')"
  have ne: "r' \<noteq> r" using m by (simp add: view)
  then have old: "bindings s r' = Some b" "r' \<in> set (wss_clients s)"
    using b m by (simp_all add: view)
  note reg = inv_registeredD[OF assms(2) old(1) l old(2)]
  have bw: "bindings s r = Some (binding_of w)" using assms(3) by (simp add: bindings_def)
  have inj: "\<And>r r' b b'. bindings s r = Some b \<Longrightarrow> bindings s r' = Some b' \<Longrightarrow>
                   b_clientId b = b_clientId b' \<Longrightarrow> r = r'"
    using assms(1) unfolding inv_sockets_def by blast
  have cne: "b_clientId b \<noteq> clientId w"
  proof
    assume "b_clientId b = clientId w"
    then have "b_clientId b = b_clientId (binding_of w)" by (simp add: binding_of_def)
    from inj[OF old(1) bw this] ne show False by simp
  qed
  have c: "clients ?s' (b_clientId b) = Some r'" using reg cne by (simp add: view)
  have mono: "\<And>X. b_clientId b \<in> set (bucket (deviceIdClients s) X) \<Longrightarrow>
                    b_clientId b \<in> set (bucket (deviceIdClients ?s') X)"
      "\<And>X. b_clientId b \<in> set (bucket (productIdClients s) X) \<Longrightarrow>
                    b_clientId b \<in> set (bucket (productIdClients ?s') X)"
    using cne by (auto simp: view in_bucket_remove_from)
  from reg mono have "(\<exists>X. X \<noteq> [] \<and> b_deviceId b = Some X \<and> b_productId b = None \<and>
           b_clientId b \<in> set (bucket (deviceIdClients ?s') X)) \<or>
      (\<exists>X. X \<noteq> [] \<and> b_productId b = Some X \<and> b_deviceId b = None \<and>
           b_clientId b \<in> set (bucket (productIdClients ?s') X))"
    by blast
  with c show "clients ?s' (b_clientId b) = Some r' \<and>
     ((\<exists>X. X \<noteq> [] \<and> b_deviceId b = Some X \<and> b_productId b = None \<and>
           b_clientId b \<in> set (bucket (deviceIdClients ?s') X)) \<or>
      (\<exists>X. X \<noteq> [] \<and> b_productId b = Some X \<and> b_deviceId b = None \<and>
           b_clientId b \<in> set (bucket (productIdClients ?s') X)))"
    by simp
qed

lemma inv_close:
  assumes "inv s" "r \<in> set (wss_clients s)"
  shows "inv (emit_close s r)"
proof -
  have "bindings s r \<noteq> None" using assms unfolding inv_def inv_sockets_def by blast
  then obtain w where w: "heap s r = Some w" by (auto simp: bindings_def)
  show ?thesis using assms(1) inv_sockets_close[OF _ w] inv_clients_close[OF _ w]
      inv_devices_close[OF _ _ w assms(2)] inv_products_close[OF _ _ w assms(2)]
      inv_registered_close[OF _ _ w]
    by (simp add: inv_def)
qed

lemma inv_initial: "inv initial"
  by (simp add: inv_def inv_sockets_def inv_clients_def inv_devices_def inv_products_def
      inv_registered_def initial_def bindings_def)

lemma inv_step:
  assumes "inv s" "enabled s e"
  shows "inv (fst (step s e))"
proof (cases e)
  case (Connection r uuid now url)
  then show ?thesis using inv_connection assms by simp
next
  case (Message r now parsed)
  have "inv (fst (on_message s r now parsed)) = inv s"
    by (rule inv_cong) (simp_all add: tables_on_message bindings_on_message)
  then show ?thesis using Message assms(1) by simp
next
  case (Pong r)
  have "inv (on_pong s r) = inv s"
    by (rule inv_cong) (simp_all add: tables_on_pong bindings_on_pong)
  then show ?thesis using Pong assms(1) by simp
next
  case (CloseEvent r)
  then show ?thesis using assms inv_close by simp
next
  case (ErrorEvent r)
  then show ?thesis using assms(1) by simp
next
  case Tick
  have "inv (fst (heartbeat_loop s (wss_clients s))) = inv s"
    by (rule inv_cong) (simp_all add: heartbeat_loop_keeps)
  then show ?thesis using Tick assms(1) by (simp add: heartbeat_def)
qed

lemma reachable_inv: "reachable s \<Longrightarrow> inv s"
  by (induction rule: reachable.induct) (simp_all add: inv_initial inv_step)

section \<open>Registry cleanup\<close>

lemma sample_heap2: "heap sample 2 = Some ws2"
  by (simp add: sample_def ws2_def initial_def on_connection_def Let_def bucket_def)

lemma reachable_run: "reachable s \<Longrightarrow> valid_run s es \<Longrightarrow> reachable (fst (run s es))"
proof (induction es arbitrary: s)
  case Nil
  then show ?case by simp
next
  case (Cons e es)
  then show ?case using reachable_step[of s e]
    by (simp add: fst_run_Cons del: run.simps step.simps)
qed

lemma reachable_sample: "reachable sample"
  unfolding sample_def
  by (rule reachable_run[OF reachable_initial])
     (simp add: initial_def on_connection_def Let_def bucket_def)

lemma closed_absent:
  assumes "inv s" "heap s r = Some w" "readyState w = CLOSED"
  shows "clients s (clientId w) = None \<and>
         (\<forall>X. clientId w \<notin> set (bucket (deviceIdClients s) X)) \<and>
         (\<forall>X. clientId w \<notin> set (bucket (productIdClients s) X))"
proof -
  have i: "inv_sockets s" "inv_clients s" "inv_devices s" "inv_products s"
    using assms(1) by (simp_all add: inv_def)
  have bw: "bindings s r = Some (binding_of w)" using assms(2) by (simp add: bindings_def)
  have "b_closed (binding_of w)" using assms(3) by (simp add: binding_of_def)
  then have nr: "r \<notin> set (wss_clients s)" using i(1) bw unfolding inv_sockets_def by blast
  have inj: "\<And>r r' b b'. bindings s r = Some b \<Longrightarrow> bindings s r' = Some b' \<Longrightarrow>
                   b_clientId b = b_clientId b' \<Longrightarrow> r = r'"
    using i(1) unfolding inv_sockets_def by blast
  have c: "clients s (clientId w) = None"
  proof (cases "clients s (clientId w)")
    case None
    then show ?thesis .
  next
    case (Some r')
    then obtain b where b: "r' \<in> set (wss_clients s)" "bindings s r' = Some b"
        "b_clientId b = clientId w"
      using i(2) unfolding inv_clients_def by blast
    have "b_clientId b = b_clientId (binding_of w)" using b(3) by (simp add: binding_of_def)
    from inj[OF b(2) bw this] b(1) nr show ?thesis by simp
  qed
  have d: "\<forall>X. clientId w \<notin> set (bucket (deviceIdClients s) X)"
  proof (intro allI notI)
    fix X assume a: "clientId w \<in> set (bucket (deviceIdClients s) X)"
    then obtain ids where ids: "deviceIdClients s X = Some ids" "clientId w \<in> set ids"
      by (cases "deviceIdClients s X") (auto simp: bucket_def)
    from inv_devicesD[OF i(3) ids] c show False by auto
  qed
  have p: "\<forall>X. clientId w \<notin> set (bucket (productIdClients s) X)"
  proof (intro allI notI)
    fix X assume a: "clientId w \<in> set (bucket (productIdClients s) X)"
    then obtain ids where ids: "productIdClients s X = Some ids" "clientId w \<in> set ids"
      by (cases "productIdClients s X") (auto simp: bucket_def)
    from inv_productsD[OF i(4) ids] c show False by auto
  qed
  show ?thesis using c d p by simp
qed

lemma no_empty_bucket:
  assumes "inv s"
  shows "deviceIdClients s X \<noteq> Some [] \<and> productIdClients s X \<noteq> Some []"
  using assms unfolding inv_def inv_devices_def inv_products_def by blast

lemma registered_in_device_bucket:
  assumes "inv s" "heap s r = Some w" "clientId w \<in> set (bucket (deviceIdClients s) X)"
  shows "clients s (clientId w) = Some r \<and> r \<in> set (wss_clients s) \<and> listening w \<and>
         deviceId w = Some X \<and> productId w = None \<and> X \<noteq> []"
proof -
  have i: "inv_sockets s" "inv_clients s" "inv_devices s" "inv_registered s"
    using assms(1) by (simp_all add: inv_def)
  have bw: "bindings s r = Some (binding_of w)" using assms(2) by (simp add: bindings_def)
  have inj: "\<And>r r' b b'. bindings s r = Some b \<Longrightarrow> bindings s r' = Some b' \<Longrightarrow>
                   b_clientId b = b_clientId b' \<Longrightarrow> r = r'"
    using i(1) unfolding inv_sockets_def by blast
  obtain ids where ids: "deviceIdClients s X = Some ids" "clientId w \<in> set ids"
    using assms(3) by (cases "deviceIdClients s X") (auto simp: bucket_def)
  obtain r' b' where rb: "clients s (clientId w) = Some r'" "bindings s r' = Some b'"
      "b_deviceId b' = Some X" "b_productId b' = None"
    using inv_devicesD[OF i(3) ids] by blast
  obtain b where b: "r' \<in> set (wss_clients s)" "bindings s r' = Some b"
      "b_clientId b = clientId w" "b_listening b"
    using i(2) rb(1) unfolding inv_clients_def by blast
  have "b_clientId b = b_clientId (binding_of w)" using b(3) by (simp add: binding_of_def)
  from inj[OF b(2) bw this] have e: "r' = r" .
  then have bb: "b = binding_of w" "b' = binding_of w" using b(2) rb(2) bw by simp_all
  have l: "listening w" "deviceId w = Some X" "productId w = None"
    using b(4) rb(3,4) bb by (simp_all add: binding_of_def)
  have "X \<noteq> []" using registered_socket[OF i(4) assms(2) l(1)] b(1) e l(2) by auto
  then show ?thesis using rb(1) b(1) e l by simp
qed

lemma registered_in_product_bucket:
  assumes "inv s" "heap s r = Some w" "clientId w \<in> set (bucket (productIdClients s) X)"
  shows "clients s (clientId w) = Some r \<and> r \<in> set (wss_clients s) \<and> listening w \<and>
         productId w = Some X \<and> deviceId w = None \<and> X \<noteq> []"
proof -
  have i: "inv_sockets s" "inv_clients s" "inv_products s" "inv_registered s"
    using assms(1) by (simp_all add: inv_def)
  have bw: "bindings s r = Some (binding_of w)" using assms(2) by (simp add: bindings_def)
  have inj: "\<And>r r' b b'. bindings s r = Some b \<Longrightarrow> bindings s r' = Some b' \<Longrightarrow>
                   b_clientId b = b_clientId b' \<Longrightarrow> r = r'"
    using i(1) unfolding inv_sockets_def by blast
  obtain ids where ids: "productIdClients s X = Some ids" "clientId w \<in> set ids"
    using assms(3) by (cases "productIdClients s X") (auto simp: bucket_def)
  obtain r' b' where rb: "clients s (clientId w) = Some r'" "bindings s r' = Some b'"
      "b_productId b' = Some X" "b_deviceId b' = None"
    using inv_productsD[OF i(3) ids] by blast
  obtain b where b: "r' \<in> set (wss_clients s)" "bindings s r' = Some b"
      "b_clientId b = clientId w" "b_listening b"
    using i(2) rb(1) unfolding inv_clients_def by blast
  have "b_clientId b = b_clientId (binding_of w)" using b(3) by (simp add: binding_of_def)
  from inj[OF b(2) bw this] have e: "r' = r" .
  then have bb: "b = binding_of w" "b' = binding_of w" using b(2) rb(2) bw by simp_all
  have l: "listening w" "productId w = Some X" "deviceId w = None"
    using b(4) rb(3,4) bb by (simp_all add: binding_of_def)
  have "X \<noteq> []" using registered_socket[OF i(4) assms(2) l(1)] b(1) e l(2) by auto
  then show ?thesis using rb(1) b(1) e l by simp
qed

lemma remove_last_member:
  "set (bucket m X) = {c} \<Longrightarrow> remove_from m X c X = None"
  by (auto simp: remove_from_def Let_def filter_empty_conv)

text \<open>
  C2. In every reachable state, the id of a closed socket is in no table: not in the
  connection table, in no device bucket and in no product bucket; and no bucket is stored
  empty. The close event of an unclosed socket leads to such a state, with the socket
  closed, and deletes the bucket whose only member was the socket's id.
\<close>

theorem registry_cleanup:
  assumes "reachable s" "heap s r = Some w"
  shows "(readyState w = CLOSED \<longrightarrow>
            clients s (clientId w) = None \<and>
            (\<forall>X. clientId w \<notin> set (bucket (deviceIdClients s) X)) \<and>
            (\<forall>X. clientId w \<notin> set (bucket (productIdClients s) X))) \<and>
         (\<forall>X. deviceIdClients s X \<noteq> Some [] \<and> productIdClients s X \<noteq> Some []) \<and>
         (r \<in> set (wss_clients s) \<longrightarrow>
            reachable (fst (step s (CloseEvent r))) \<and>
            (\<exists>w'. heap (fst (step s (CloseEvent r))) r = Some w' \<and> clientId w' = clientId w \<and>
                  readyState w' = CLOSED) \<and>
            (\<forall>X. set (bucket (deviceIdClients s) X) = {clientId w} \<longrightarrow>
                 deviceIdClients (fst (step s (CloseEvent r))) X = None) \<and>
            (\<forall>X. set (bucket (productIdClients s) X) = {clientId w} \<longrightarrow>
                 productIdClients (fst (step s (CloseEvent r))) X = None))"
proof -
  have i: "inv s" by (rule reachable_inv[OF assms(1)])
  have a: "readyState w = CLOSED \<longrightarrow>
            clients s (clientId w) = None \<and>
            (\<forall>X. clientId w \<notin> set (bucket (deviceIdClients s) X)) \<and>
            (\<forall>X. clientId w \<notin> set (bucket (productIdClients s) X))"
    using closed_absent[OF i assms(2)] by blast
  have b: "\<forall>X. deviceIdClients s X \<noteq> Some [] \<and> productIdClients s X \<noteq> Some []"
    using no_empty_bucket[OF i] by blast
  have c: "r \<in> set (wss_clients s) \<longrightarrow>
            reachable (fst (step s (CloseEvent r))) \<and>
            (\<exists>w'. heap (fst (step s (CloseEvent r))) r = Some w' \<and> clientId w' = clientId w \<and>
                  readyState w' = CLOSED) \<and>
            (\<forall>X. set (bucket (deviceIdClients s) X) = {clientId w} \<longrightarrow>
                 deviceIdClients (fst (step s (CloseEvent r))) X = None) \<and>
            (\<forall>X. set (bucket (productIdClients s) X) = {clientId w} \<longrightarrow>
                 productIdClients (fst (step s (CloseEvent r))) X = None)"
  proof
    assume m: "r \<in> set (wss_clients s)"
    have r1: "reachable (fst (step s (CloseEvent r)))"
      using reachable_step[OF assms(1), of "CloseEvent r"] m by simp
    have r2: "\<exists>w'. heap (fst (step s (CloseEvent r))) r = Some w' \<and> clientId w' = clientId w \<and>
                  readyState w' = CLOSED"
      using assms(2) by (simp add: emit_close_def Let_def heap_on_close)
    have r3: "\<forall>X. set (bucket (deviceIdClients s) X) = {clientId w} \<longrightarrow>
                 deviceIdClients (fst (step s (CloseEvent r))) X = None"
    proof (intro allI impI)
      fix X assume e: "set (bucket (deviceIdClients s) X) = {clientId w}"
      then have "clientId w \<in> set (bucket (deviceIdClients s) X)" by simp
      from registered_in_device_bucket[OF i assms(2) this]
      have "listening w" "deviceId w = Some X" "X \<noteq> []" by simp_all
      then show "deviceIdClients (fst (step s (CloseEvent r))) X = None"
        using e by (simp add: deviceIdClients_emit_close[OF assms(2)] remove_last_member)
    qed
    have r4: "\<forall>X. set (bucket (productIdClients s) X) = {clientId w} \<longrightarrow>
                 productIdClients (fst (step s (CloseEvent r))) X = None"
    proof (intro allI impI)
      fix X assume e: "set (bucket (productIdClients s) X) = {clientId w}"
      then have "clientId w \<in> set (bucket (productIdClients s) X)" by simp
      from registered_in_product_bucket[OF i assms(2) this]
      have "listening w" "productId w = Some X" "X \<noteq> []" by simp_all
      then show "productIdClients (fst (step s (CloseEvent r))) X = None"
        using e by (simp add: productIdClients_emit_close[OF assms(2)] remove_last_member)
    qed
    show "reachable (fst (step s (CloseEvent r))) \<and>
            (\<exists>w'. heap (fst (step s (CloseEvent r))) r = Some w' \<and> clientId w' = clientId w \<and>
                  readyState w' = CLOSED) \<and>
            (\<forall>X. set (bucket (deviceIdClients s) X) = {clientId w} \<longrightarrow>
                 deviceIdClients (fst (step s (CloseEvent r))) X = None) \<and>
            (\<forall>X. set (bucket (productIdClients s) X) = {clientId w} \<longrightarrow>
                 productIdClients (fst (step s (CloseEvent r))) X = None)"
      using r1 r2 r3 r4 by blast
  qed
  show ?thesis using a b c by blast
qed

theorem registry_cleanup_witness:
  "reachable sample \<and> heap sample 2 = Some ws2 \<and> 2 \<in> set (wss_clients sample) \<and>
   set (bucket (productIdClients sample) ''P'') = {''c2''} \<and>
   reachable closed_sample \<and>
   heap closed_sample 2 = Some (ws2\<lparr>readyState := CLOSED\<rparr>) \<and>
   productIdClients closed_sample ''P'' = None \<and>
   clients closed_sample ''c2'' = None \<and>
   ''c2'' \<notin> set (bucket (deviceIdClients closed_sample) ''X'') \<and>
   ''c2'' \<notin> set (bucket (productIdClients closed_sample) ''P'') \<and>
   deviceIdClients closed_sample ''X'' \<noteq> Some []"
proof -
  have m: "2 \<in> set (wss_clients sample)" by (simp add: sample_wss_clients)
  have b: "set (bucket (productIdClients sample) ''P'') = {''c2''}"
    by (simp add: sample_productIdClients bucket_def)
  have h: "heap closed_sample 2 = Some (ws2\<lparr>readyState := CLOSED\<rparr>)"
    by (simp add: closed_sample_def emit_close_def Let_def sample_heap2 heap_on_close)
  note first = registry_cleanup[OF reachable_sample sample_heap2]
  have r: "reachable closed_sample" using first m by (simp add: closed_sample_def)
  have p: "productIdClients closed_sample ''P'' = None"
    using first m b by (simp add: closed_sample_def ws2_def)
  note second = registry_cleanup[OF r h]
  have c: "clients closed_sample ''c2'' = None"
    "''c2'' \<notin> set (bucket (deviceIdClients closed_sample) ''X'')"
    "''c2'' \<notin> set (bucket (productIdClients closed_sample) ''P'')"
    "deviceIdClients closed_sample ''X'' \<noteq> Some []"
    using second by (simp_all add: ws2_def)
  show ?thesis using reachable_sample sample_heap2 m b r h p c by simp
qed

section \<open>Routing\<close>

lemma deliver_cong:
  "clients s' = clients s \<Longrightarrow> (\<forall>t. is_open s' t = is_open s t) \<Longrightarrow>
   deliver s' m ids = deliver s m ids"
proof (induction ids)
  case Nil
  then show ?case by simp
next
  case (Cons c ids)
  show ?case
  proof (cases "clients s c")
    case None
    then show ?thesis using Cons by simp
  next
    case (Some t)
    have "is_open s' t = is_open s t" using Cons.prems(2) by blast
    then show ?thesis using Some Cons
      by (cases "heap s t"; cases "heap s' t") (auto simp: is_open_def)
  qed
qed

lemma in_deliver:
  "e \<in> set (deliver s m ids) \<longleftrightarrow>
   (\<exists>t c. e = Send t m \<and> c \<in> set ids \<and> clients s c = Some t \<and> is_open s t)"
proof (induction ids)
  case Nil
  then show ?case by simp
next
  case (Cons c ids)
  show ?case
  proof (cases "clients s c")
    case None
    then show ?thesis using Cons by auto
  next
    case (Some t)
    then show ?thesis using Cons
      by (cases "heap s t") (auto simp: is_open_def)
  qed
qed

lemma route_to_device:
  "to_device m X \<Longrightarrow> route s (Some m) = Inr (deliver s m (bucket (deviceIdClients s) X))"
  by (simp add: route_def to_device_def)

lemma route_to_product:
  "to_product m X \<Longrightarrow> route s (Some m) = Inr (deliver s m (bucket (productIdClients s) X))"
  by (simp add: route_def to_product_def)

lemma is_open_counted:
  "heap s r = Some w \<Longrightarrow>
   is_open (s\<lparr>heap := (heap s)(r \<mapsto> rate_window w now)\<rparr>) t = is_open s t"
  by (simp add: is_open_def rate_window_fields)

lemma message_to_device:
  assumes "heap s r = Some w" "listening w" "admitted w now" "to_device m X"
  shows "snd (step s (Message r now (Some m))) = deliver s m (bucket (deviceIdClients s) X)"
proof -
  let ?s1 = "s\<lparr>heap := (heap s)(r \<mapsto> rate_window w now)\<rparr>"
  have "deliver ?s1 m (bucket (deviceIdClients s) X) = deliver s m (bucket (deviceIdClients s) X)"
    by (rule deliver_cong) (simp_all add: is_open_counted[OF assms(1)])
  then show ?thesis
    using assms on_message_admitted[OF assms(1), of now "Some m"]
    by (simp add: has_listeners_def admitted_def try_route_def route_to_device)
qed

lemma message_to_product:
  assumes "heap s r = Some w" "listening w" "admitted w now" "to_product m X"
  shows "snd (step s (Message r now (Some m))) = deliver s m (bucket (productIdClients s) X)"
proof -
  let ?s1 = "s\<lparr>heap := (heap s)(r \<mapsto> rate_window w now)\<rparr>"
  have "deliver ?s1 m (bucket (productIdClients s) X) = deliver s m (bucket (productIdClients s) X)"
    by (rule deliver_cong) (simp_all add: is_open_counted[OF assms(1)])
  then show ?thesis
    using assms on_message_admitted[OF assms(1), of now "Some m"]
    by (simp add: has_listeners_def admitted_def try_route_def route_to_product)
qed

lemma client_id_of_entry:
  assumes "inv s" "clients s c = Some t" "heap s t = Some wt"
  shows "clientId wt = c"
proof -
  obtain b where b: "bindings s t = Some b" "b_clientId b = c"
    using assms(1,2) unfolding inv_def inv_clients_def by blast
  then show ?thesis using assms(3) by (auto simp: bindings_def binding_of_def)
qed

lemma device_recipient:
  assumes "inv s" "c \<in> set (bucket (deviceIdClients s) X)" "clients s c = Some t"
    "heap s t = Some wt"
  shows "deviceId wt = Some X \<and> productId wt = None \<and>
         (\<forall>Y. Y \<noteq> X \<longrightarrow> clientId wt \<notin> set (bucket (deviceIdClients s) Y)) \<and>
         (\<forall>Y. clientId wt \<notin> set (bucket (productIdClients s) Y))"
proof -
  have c: "clientId wt = c" by (rule client_id_of_entry[OF assms(1,3,4)])
  have own: "deviceId wt = Some X" "productId wt = None"
    using registered_in_device_bucket[OF assms(1,4), of X] c assms(2) by simp_all
  have d: "\<forall>Y. Y \<noteq> X \<longrightarrow> clientId wt \<notin> set (bucket (deviceIdClients s) Y)"
    using registered_in_device_bucket[OF assms(1,4)] own(1) by fastforce
  have p: "\<forall>Y. clientId wt \<notin> set (bucket (productIdClients s) Y)"
    using registered_in_product_bucket[OF assms(1,4)] own(2) by fastforce
  show ?thesis using own d p by simp
qed

lemma product_recipient:
  assumes "inv s" "c \<in> set (bucket (productIdClients s) X)" "clients s c = Some t"
    "heap s t = Some wt"
  shows "productId wt = Some X \<and> deviceId wt = None \<and>
         (\<forall>Y. Y \<noteq> X \<longrightarrow> clientId wt \<notin> set (bucket (productIdClients s) Y)) \<and>
         (\<forall>Y. clientId wt \<notin> set (bucket (deviceIdClients s) Y))"
proof -
  have c: "clientId wt = c" by (rule client_id_of_entry[OF assms(1,3,4)])
  have own: "productId wt = Some X" "deviceId wt = None"
    using registered_in_product_bucket[OF assms(1,4), of X] c assms(2) by simp_all
  have d: "\<forall>Y. Y \<noteq> X \<longrightarrow> clientId wt \<notin> set (bucket (productIdClients s) Y)"
    using registered_in_product_bucket[OF assms(1,4)] own(1) by fastforce
  have p: "\<forall>Y. clientId wt \<notin> set (bucket (deviceIdClients s) Y)"
    using registered_in_device_bucket[OF assms(1,4)] own(2) by fastforce
  show ?thesis using own d p by simp
qed

text \<open>
  C1. In a reachable state, when a socket with handlers receives a frame that the rate
  limiter lets through and that parses to a message \<open>m\<close> with target "device" and
  deviceId \<open>X\<close> (or target "product" and productId \<open>X\<close>): the sockets to which a
  frame is sent are exactly those that the connection table gives for an id in the bucket
  of \<open>X\<close> in the matching registry and that are OPEN; every effect of the handler is a
  send of the serialisation of the same \<open>m\<close>; and every recipient has the role \<open>X\<close>
  of that namespace, its id being in no other bucket of either registry.
\<close>

theorem routing:
  assumes "reachable s" "heap s r = Some w" "listening w" "admitted w now"
  shows "(to_device m X \<longrightarrow>
           (\<forall>t. Send t m \<in> set (snd (step s (Message r now (Some m)))) \<longleftrightarrow>
                (\<exists>c\<in>set (bucket (deviceIdClients s) X). clients s c = Some t \<and> is_open s t)) \<and>
           (\<forall>e\<in>set (snd (step s (Message r now (Some m)))). \<exists>t. e = Send t m) \<and>
           (\<forall>t wt. Send t m \<in> set (snd (step s (Message r now (Some m)))) \<longrightarrow>
                heap s t = Some wt \<longrightarrow>
                deviceId wt = Some X \<and> productId wt = None \<and>
                (\<forall>Y. Y \<noteq> X \<longrightarrow> clientId wt \<notin> set (bucket (deviceIdClients s) Y)) \<and>
                (\<forall>Y. clientId wt \<notin> set (bucket (productIdClients s) Y)))) \<and>
         (to_product m X \<longrightarrow>
           (\<forall>t. Send t m \<in> set (snd (step s (Message r now (Some m)))) \<longleftrightarrow>
                (\<exists>c\<in>set (bucket (productIdClients s) X). clients s c = Some t \<and> is_open s t)) \<and>
           (\<forall>e\<in>set (snd (step s (Message r now (Some m)))). \<exists>t. e = Send t m) \<and>
           (\<forall>t wt. Send t m \<in> set (snd (step s (Message r now (Some m)))) \<longrightarrow>
                heap s t = Some wt \<longrightarrow>
                productId wt = Some X \<and> deviceId wt = None \<and>
                (\<forall>Y. Y \<noteq> X \<longrightarrow> clientId wt \<notin> set (bucket (productIdClients s) Y)) \<and>
                (\<forall>Y. clientId wt \<notin> set (bucket (deviceIdClients s) Y))))"
proof -
  have i: "inv s" by (rule reachable_inv[OF assms(1)])
  let ?out = "snd (step s (Message r now (Some m)))"
  have dev: "to_device m X \<longrightarrow>
           (\<forall>t. Send t m \<in> set ?out \<longleftrightarrow>
                (\<exists>c\<in>set (bucket (deviceIdClients s) X). clients s c = Some t \<and> is_open s t)) \<and>
           (\<forall>e\<in>set ?out. \<exists>t. e = Send t m) \<and>
           (\<forall>t wt. Send t m \<in> set ?out \<longrightarrow> heap s t = Some wt \<longrightarrow>
                deviceId wt = Some X \<and> productId wt = None \<and>
                (\<forall>Y. Y \<noteq> X \<longrightarrow> clientId wt \<notin> set (bucket (deviceIdClients s) Y)) \<and>
                (\<forall>Y. clientId wt \<notin> set (bucket (productIdClients s) Y)))"
  proof
    assume a: "to_device m X"
    have out: "?out = deliver s m (bucket (deviceIdClients s) X)"
      by (rule message_to_device[OF assms(2,3,4) a])
    have 1: "\<forall>t. Send t m \<in> set ?out \<longleftrightarrow>
                (\<exists>c\<in>set (bucket (deviceIdClients s) X). clients s c = Some t \<and> is_open s t)"
      unfolding out in_deliver by auto
    have 2: "\<forall>e\<in>set ?out. \<exists>t. e = Send t m"
      unfolding out by (auto simp: in_deliver)
    have 3: "\<forall>t wt. Send t m \<in> set ?out \<longrightarrow> heap s t = Some wt \<longrightarrow>
                deviceId wt = Some X \<and> productId wt = None \<and>
                (\<forall>Y. Y \<noteq> X \<longrightarrow> clientId wt \<notin> set (bucket (deviceIdClients s) Y)) \<and>
                (\<forall>Y. clientId wt \<notin> set (bucket (productIdClients s) Y))"
    proof (intro allI impI)
      fix t wt assume s: "Send t m \<in> set ?out" and h: "heap s t = Some wt"
      from s obtain c where c: "c \<in> set (bucket (deviceIdClients s) X)" "clients s c = Some t"
        unfolding out in_deliver by auto
      show "deviceId wt = Some X \<and> productId wt = None \<and>
                (\<forall>Y. Y \<noteq> X \<longrightarrow> clientId wt \<notin> set (bucket (deviceIdClients s) Y)) \<and>
                (\<forall>Y. clientId wt \<notin> set (bucket (productIdClients s) Y))"
        by (rule device_recipient[OF i c h])
    qed
    show "(\<forall>t. Send t m \<in> set ?out \<longleftrightarrow>
                (\<exists>c\<in>set (bucket (deviceIdClients s) X). clients s c = Some t \<and> is_open s t)) \<and>
           (\<forall>e\<in>set ?out. \<exists>t. e = Send t m) \<and>
           (\<forall>t wt. Send t m \<in> set ?out \<longrightarrow> heap s t = Some wt \<longrightarrow>
                deviceId wt = Some X \<and> productId wt = None \<and>
                (\<forall>Y. Y \<noteq> X \<longrightarrow> clientId wt \<notin> set (bucket (deviceIdClients s) Y)) \<and>
                (\<forall>Y. clientId wt \<notin> set (bucket (productIdClients s) Y)))"
      using 1 2 3 by blast
  qed
  have prod: "to_product m X \<longrightarrow>
           (\<forall>t. Send t m \<in> set ?out \<longleftrightarrow>
                (\<exists>c\<in>set (bucket (productIdClients s) X). clients s c = Some t \<and> is_open s t)) \<and>
           (\<forall>e\<in>set ?out. \<exists>t. e = Send t m) \<and>
           (\<forall>t wt. Send t m \<in> set ?out \<longrightarrow> heap s t = Some wt \<longrightarrow>
                productId wt = Some X \<and> deviceId wt = None \<and>
                (\<forall>Y. Y \<noteq> X \<longrightarrow> clientId wt \<notin> set (bucket (productIdClients s) Y)) \<and>
                (\<forall>Y. clientId wt \<notin> set (bucket (deviceIdClients s) Y)))"
  proof
    assume a: "to_product m X"
    have out: "?out = deliver s m (bucket (productIdClients s) X)"
      by (rule message_to_product[OF assms(2,3,4) a])
    have 1: "\<forall>t. Send t m \<in> set ?out \<longleftrightarrow>
                (\<exists>c\<in>set (bucket (productIdClients s) X). clients s c = Some t \<and> is_open s t)"
      unfolding out in_deliver by auto
    have 2: "\<forall>e\<in>set ?out. \<exists>t. e = Send t m"
      unfolding out by (auto simp: in_deliver)
    have 3: "\<forall>t wt. Send t m \<in> set ?out \<longrightarrow> heap s t = Some wt \<longrightarrow>
                productId wt = Some X \<and> deviceId wt = None \<and>
                (\<forall>Y. Y \<noteq> X \<longrightarrow> clientId wt \<notin> set (bucket (productIdClients s) Y)) \<and>
                (\<forall>Y. clientId wt \<notin> set (bucket (deviceIdClients s) Y))"
    proof (intro allI impI)
      fix t wt assume s: "Send t m \<in> set ?out" and h: "heap s t = Some wt"
      from s obtain c where c: "c \<in> set (bucket (productIdClients s) X)" "clients s c = Some t"
        unfolding out in_deliver by auto
      show "productId wt = Some X \<and> deviceId wt = None \<and>
                (\<forall>Y. Y \<noteq> X \<longrightarrow> clientId wt \<notin> set (bucket (productIdClients s) Y)) \<and>
                (\<forall>Y. clientId wt \<notin> set (bucket (deviceIdClients s) Y))"
        by (rule product_recipient[OF i c h])
    qed
    show "(\<forall>t. Send t m \<in> set ?out \<longleftrightarrow>
                (\<exists>c\<in>set (bucket (productIdClients s) X). clients s c = Some t \<and> is_open s t)) \<and>
           (\<forall>e\<in>set ?out. \<exists>t. e = Send t m) \<and>
           (\<forall>t wt. Send t m \<in> set ?out \<longrightarrow> heap s t = Some wt \<longrightarrow>
                productId wt = Some X \<and> deviceId wt = None \<and>
                (\<forall>Y. Y \<noteq> X \<longrightarrow> clientId wt \<notin> set (bucket (productIdClients s) Y)) \<and>
                (\<forall>Y. clientId wt \<notin> set (bucket (deviceIdClients s) Y)))"
      using 1 2 3 by blast
  qed
  show ?thesis using dev prod by blast
qed

theorem routing_witness:
  "reachable sample \<and> heap sample 2 = Some ws2 \<and> listening ws2 \<and> admitted ws2 10 \<and>
   to_device hello ''X'' \<and>
   Send 0 hello \<in> set (snd (step sample (Message 2 10 (Some hello)))) \<and>
   Send 1 hello \<in> set (snd (step sample (Message 2 10 (Some hello)))) \<and>
   Send 2 hello \<notin> set (snd (step sample (Message 2 10 (Some hello)))) \<and>
   deviceId ws0 = Some ''X'' \<and> ''c0'' \<notin> set (bucket (productIdClients sample) ''P'')"
proof -
  have l: "listening ws2" by (simp add: ws2_def)
  have a: "admitted ws2 10" by (simp add: admitted_def ws2_def rate_window_def Let_def)
  have d: "to_device hello ''X''" by (simp add: to_device_def hello_def)
  have o: "is_open sample 0" "is_open sample 1"
    by (simp_all add: is_open_def sample_def initial_def on_connection_def Let_def bucket_def)
  note th = routing[OF reachable_sample sample_heap2 l a, of hello "''X''"]
  have s0: "Send 0 hello \<in> set (snd (step sample (Message 2 10 (Some hello))))"
    using th d o by (simp add: sample_deviceIdClients sample_clients bucket_def del: step.simps)
  have s1: "Send 1 hello \<in> set (snd (step sample (Message 2 10 (Some hello))))"
    using th d o by (simp add: sample_deviceIdClients sample_clients bucket_def del: step.simps)
  have s2: "Send 2 hello \<notin> set (snd (step sample (Message 2 10 (Some hello))))"
    using th d by (simp add: sample_deviceIdClients sample_clients bucket_def del: step.simps)
  note third = th[THEN conjunct1, THEN mp, OF d, THEN conjunct2, THEN conjunct2]
  from third[rule_format, OF s0 sample_heap0]
  have r: "deviceId ws0 = Some ''X''" "''c0'' \<notin> set (bucket (productIdClients sample) ''P'')"
    by (simp_all add: ws0_def)
  show ?thesis using reachable_sample sample_heap2 l a d s0 s1 s2 r by simp
qed

text \<open>
  C9. The sender is a recipient like any other: in a reachable state, when an OPEN socket
  whose id is in the bucket of \<open>X\<close> sends a message addressed to \<open>X\<close> in that
  namespace and the rate limiter lets the frame through, a frame is sent to the sender
  itself.
\<close>

theorem sender_included:
  assumes "reachable s" "heap s r = Some w" "readyState w = OPEN" "admitted w now"
  shows "(clientId w \<in> set (bucket (deviceIdClients s) X) \<longrightarrow> to_device m X \<longrightarrow>
            Send r m \<in> set (snd (step s (Message r now (Some m))))) \<and>
         (clientId w \<in> set (bucket (productIdClients s) X) \<longrightarrow> to_product m X \<longrightarrow>
            Send r m \<in> set (snd (step s (Message r now (Some m)))))"
proof -
  have i: "inv s" by (rule reachable_inv[OF assms(1)])
  have o: "is_open s r" using assms(2,3) by (simp add: is_open_def)
  have dev: "clientId w \<in> set (bucket (deviceIdClients s) X) \<longrightarrow> to_device m X \<longrightarrow>
            Send r m \<in> set (snd (step s (Message r now (Some m))))"
  proof (intro impI)
    assume b: "clientId w \<in> set (bucket (deviceIdClients s) X)" and a: "to_device m X"
    from registered_in_device_bucket[OF i assms(2) b]
    have c: "clients s (clientId w) = Some r" and l: "listening w" by simp_all
    show "Send r m \<in> set (snd (step s (Message r now (Some m))))"
      unfolding message_to_device[OF assms(2) l assms(4) a] in_deliver
      using b c o by blast
  qed
  have prod: "clientId w \<in> set (bucket (productIdClients s) X) \<longrightarrow> to_product m X \<longrightarrow>
            Send r m \<in> set (snd (step s (Message r now (Some m))))"
  proof (intro impI)
    assume b: "clientId w \<in> set (bucket (productIdClients s) X)" and a: "to_product m X"
    from registered_in_product_bucket[OF i assms(2) b]
    have c: "clients s (clientId w) = Some r" and l: "listening w" by simp_all
    show "Send r m \<in> set (snd (step s (Message r now (Some m))))"
      unfolding message_to_product[OF assms(2) l assms(4) a] in_deliver
      using b c o by blast
  qed
  show ?thesis using dev prod by blast
qed

theorem sender_included_witness:
  "reachable sample \<and> heap sample 0 = Some ws0 \<and> readyState ws0 = OPEN \<and> admitted ws0 10 \<and>
   ''c0'' \<in> set (bucket (deviceIdClients sample) ''X'') \<and> to_device hello ''X'' \<and>
   Send 0 hello \<in> set (snd (step sample (Message 0 10 (Some hello))))"
proof -
  have o: "readyState ws0 = OPEN" by (simp add: ws0_def)
  have a: "admitted ws0 10" by (simp add: admitted_def ws0_def rate_window_def Let_def)
  have d: "to_device hello ''X''" by (simp add: to_device_def hello_def)
  have b: "''c0'' \<in> set (bucket (deviceIdClients sample) ''X'')"
    by (simp add: sample_deviceIdClients bucket_def)
  have "Send 0 hello \<in> set (snd (step sample (Message 0 10 (Some hello))))"
    using sender_included[OF reachable_sample sample_heap0 o a, of "''X''" hello] b d
    by (simp add: ws0_def del: step.simps)
  then show ?thesis using reachable_sample sample_heap0 o a b d by simp
qed

section \<open>Malformed frames\<close>

lemma route_malformed: "malformed parsed \<Longrightarrow> \<exists>e. route s parsed = Inl e"
  by (cases parsed)
     (auto simp: malformed_def invalid_target_def lacks_id_def route_def split: sum.splits)

lemma try_route_malformed: "malformed parsed \<Longrightarrow> only_logs (try_route s parsed)"
  using route_malformed[of parsed s] by (auto simp: try_route_def only_logs_def)

text \<open>
  C7. When a socket with handlers receives a frame that the rate limiter lets through
  (the router comes after the limiter) and that is not JSON, or whose target is not exactly "device" or "product", or whose
  required deviceId or productId is absent or empty (or otherwise falsy): the only effect
  is the log entry of the \<open>catch\<close>, so nothing is sent to any socket, the sender
  included; the tables and every other socket stay as they are, and of the sender only
  the counters of the rate limiter change, its readyState being kept.
\<close>

theorem malformed_discarded:
  assumes "heap s r = Some w" "listening w" "admitted w now" "malformed parsed"
  shows "only_logs (try_route s parsed) \<and>
         only_logs (snd (step s (Message r now parsed))) \<and>
         fst (step s (Message r now parsed)) = s\<lparr>heap := (heap s)(r \<mapsto> rate_window w now)\<rparr> \<and>
         readyState (rate_window w now) = readyState w"
  using assms on_message_admitted[OF assms(1), of now parsed]
  by (simp add: has_listeners_def admitted_def try_route_malformed rate_window_fields)

theorem malformed_discarded_witness:
  "heap sample 0 = Some ws0 \<and> listening ws0 \<and> admitted ws0 10 \<and>
   malformed None \<and> malformed (Some (JObj [(''target'', JStr ''phone'')])) \<and>
   malformed (Some (JObj [(''target'', JStr ''device''), (''deviceId'', JStr [])])) \<and>
   malformed (Some (JObj [(''target'', JStr ''product'')])) \<and>
   snd (step sample (Message 0 10 None)) =
     [ConsoleError ''Error occured in WebSocket message callback:'' (Some SyntaxError)] \<and>
   snd (step sample (Message 0 10 (Some (JObj [(''target'', JStr ''phone'')])))) =
     [ConsoleError ''Error occured in WebSocket message callback:''
        (Some (Error ''Message target is invalid!''))] \<and>
   only_logs (snd (step sample
     (Message 0 10 (Some (JObj [(''target'', JStr ''device''), (''deviceId'', JStr [])]))))) \<and>
   only_logs (snd (step sample (Message 0 10 (Some (JObj [(''target'', JStr ''product'')]))))) \<and>
   clients (fst (step sample (Message 0 10 None))) = clients sample \<and>
   readyState (rate_window ws0 10) = OPEN"
proof -
  have l: "listening ws0" by (simp add: ws0_def)
  have a: "admitted ws0 10" by (simp add: admitted_def ws0_def rate_window_def Let_def)
  have m: "malformed None" "malformed (Some (JObj [(''target'', JStr ''phone'')]))"
    "malformed (Some (JObj [(''target'', JStr ''device''), (''deviceId'', JStr [])]))"
    "malformed (Some (JObj [(''target'', JStr ''product'')]))"
    by (simp_all add: malformed_def invalid_target_def lacks_id_def)
  note t1 = malformed_discarded[OF sample_heap0 l a m(1)]
  note t2 = malformed_discarded[OF sample_heap0 l a m(2)]
  note t3 = malformed_discarded[OF sample_heap0 l a m(3)]
  note t4 = malformed_discarded[OF sample_heap0 l a m(4)]
  have e1: "snd (step sample (Message 0 10 None)) =
     [ConsoleError ''Error occured in WebSocket message callback:'' (Some SyntaxError)]"
    using on_message_admitted[OF sample_heap0, of 10 None] a l sample_heap0
    by (simp add: admitted_def has_listeners_def try_route_def route_def)
  have e2: "snd (step sample (Message 0 10 (Some (JObj [(''target'', JStr ''phone'')])))) =
     [ConsoleError ''Error occured in WebSocket message callback:''
        (Some (Error ''Message target is invalid!''))]"
    using on_message_admitted[OF sample_heap0, of 10 "Some (JObj [(''target'', JStr ''phone'')])"]
      a l sample_heap0
    by (simp add: admitted_def has_listeners_def try_route_def route_def)
  have c: "clients (fst (step sample (Message 0 10 None))) = clients sample"
    using t1 by (simp del: step.simps)
  have o: "readyState (rate_window ws0 10) = OPEN" using t1 by (simp add: ws0_def)
  show ?thesis using sample_heap0 l a m e1 e2 t3 t4 c o by (simp del: step.simps)
qed

text \<open>
  The router is reached only by the frames that the rate limiter lets through: after 25
  frames in one window a 26th frame, here one that is not JSON, closes the sender with 1008
  "Rate limit exceeded", and the log entry is that of the limiter.
\<close>

lemma limited_frame_not_routed:
  "malformed None \<and> heap busy 0 = Some (ws0\<lparr>messageCount := 25\<rparr>) \<and>
   readyState (ws0\<lparr>messageCount := 25\<rparr>) = OPEN \<and>
   snd (step busy (Message 0 20 None)) =
     [Close 0 1008 ''Rate limit exceeded'',
      ConsoleError ''WebSocket connection c0 closed due to rate limit exceeded.'' None] \<and>
   map_option readyState (heap (fst (step busy (Message 0 20 None))) 0) = Some CLOSING"
proof -
  let ?w = "ws0\<lparr>messageCount := 25\<rparr>"
  have m: "malformed None" by (simp add: malformed_def)
  have o: "readyState ?w = OPEN" by (simp add: ws0_def)
  have c: "messageCount (rate_window ?w 20) > 25" "\<not> isTerminating ?w" "listening ?w"
    by (simp_all add: rate_window_def ws0_def Let_def)
  have l: "has_listeners busy 0" using busy_heap0 c(3) by (simp add: has_listeners_def)
  note lim = on_message_limited[OF busy_heap0 c(1,2), of None]
  have e: "snd (step busy (Message 0 20 None)) =
     [Close 0 1008 ''Rate limit exceeded'',
      ConsoleError ''WebSocket connection c0 closed due to rate limit exceeded.'' None]"
    using l lim by (simp add: ws0_def)
  have r: "map_option readyState (heap (fst (step busy (Message 0 20 None))) 0) = Some CLOSING"
    using l lim by (simp add: ws_close_def rate_window_fields ws0_def)
  show ?thesis using m busy_heap0 o e r by (simp del: step.simps)
qed

section \<open>Admission\<close>





text \<open>The environment never creates a socket object that exists.\<close>

lemma enabled_not_allocates: "heap s r = Some w \<Longrightarrow> enabled s e \<Longrightarrow> \<not> allocates e r"
  by (cases e) auto

lemma valid_run_evolves:
  "heap s r = Some w \<Longrightarrow> valid_run s es \<Longrightarrow>
   \<exists>w'. heap (fst (run s es)) r = Some w' \<and> evolves w w'"
proof (induction es arbitrary: s w)
  case Nil
  then show ?case by (simp add: evolves_refl)
next
  case (Cons e es)
  have en: "enabled s e" and vr: "valid_run (fst (step s e)) es" using Cons.prems(2) by simp_all
  obtain w1 where w1: "heap (fst (step s e)) r = Some w1" "evolves w w1"
    using step_evolves[OF Cons.prems(1) enabled_not_allocates[OF Cons.prems(1) en]] by blast
  obtain w2 where w2: "heap (fst (run (fst (step s e)) es)) r = Some w2" "evolves w1 w2"
    using Cons.IH[OF w1(1) vr] by blast
  show ?case using w2 evolves_trans[OF w1(2) w2(2)]
    by (simp add: fst_run_Cons del: run.simps step.simps)
qed


text \<open>
  A request whose URL does not parse: the socket object has its five fields and is in
  \<open>wss.clients\<close>, still OPEN; the exception leaves the listener, so that there is no
  close, no entry in a table and no handler.
\<close>

lemma connection_without_url:
  "step s (Connection r uuid now None) =
     (s\<lparr>wss_clients := wss_clients s @ [r],
        heap := (heap s)(r \<mapsto> \<lparr>clientId = uuid, isAlive = True, isTerminating = False,
          messageCount = 0, messageWindow = now, deviceId = None, productId = None,
          readyState = OPEN, listening = False\<rparr>)\<rparr>,
      [Uncaught TypeError])"
  by (simp add: on_connection_def Let_def)






section \<open>The heartbeat\<close>

lemma heap_ws_terminate_other: "r \<noteq> r' \<Longrightarrow> heap (ws_terminate s r') r = heap s r"
  by (auto simp: ws_terminate_def split: option.splits)

lemma heap_heartbeat_each_other: "r \<noteq> r' \<Longrightarrow> heap (fst (heartbeat_each s r')) r = heap s r"
  by (auto simp: heartbeat_each_def heap_ws_terminate_other split: option.splits)

lemma effects_heartbeat_each_other:
  "r \<noteq> r' \<Longrightarrow> Ping r \<notin> set (snd (heartbeat_each s r')) \<and>
               Terminate r \<notin> set (snd (heartbeat_each s r'))"
  by (auto simp: heartbeat_each_def split: option.splits)

lemma heartbeat_each_alive:
  "heap s r = Some w \<Longrightarrow> isAlive w \<Longrightarrow>
   heartbeat_each s r = (s\<lparr>heap := (heap s)(r \<mapsto> w\<lparr>isAlive := False\<rparr>)\<rparr>, [Ping r])"
  by (simp add: heartbeat_each_def)

lemma heartbeat_each_dead:
  "heap s r = Some w \<Longrightarrow> \<not> isAlive w \<Longrightarrow> heartbeat_each s r = (ws_terminate s r, [Terminate r])"
  by (simp add: heartbeat_each_def)

lemma heartbeat_loop_other:
  "r \<notin> set rs \<Longrightarrow> heap (fst (heartbeat_loop s rs)) r = heap s r \<and>
     Ping r \<notin> set (snd (heartbeat_loop s rs)) \<and> Terminate r \<notin> set (snd (heartbeat_loop s rs))"
proof (induction rs arbitrary: s)
  case Nil
  then show ?case by simp
next
  case (Cons a rs)
  then have ne: "r \<noteq> a" and nin: "r \<notin> set rs" by auto
  show ?case
    using Cons.IH[OF nin, of "fst (heartbeat_each s a)"] heap_heartbeat_each_other[OF ne, of s]
      effects_heartbeat_each_other[OF ne, of s]
    by (simp add: fst_heartbeat_loop_Cons snd_heartbeat_loop_Cons del: heartbeat_loop.simps)
qed

lemma heartbeat_loop_alive:
  assumes "heap s r = Some w" "isAlive w" "r \<in> set rs" "distinct rs"
  shows "Ping r \<in> set (snd (heartbeat_loop s rs)) \<and>
         Terminate r \<notin> set (snd (heartbeat_loop s rs)) \<and>
         heap (fst (heartbeat_loop s rs)) r = Some (w\<lparr>isAlive := False\<rparr>)"
  using assms
proof (induction rs arbitrary: s)
  case Nil
  then show ?case by simp
next
  case (Cons a rs)
  show ?case
  proof (cases "a = r")
    case True
    then have nin: "r \<notin> set rs" using Cons.prems(4) by simp
    show ?thesis
      using True heartbeat_each_alive[OF Cons.prems(1,2)]
        heartbeat_loop_other[OF nin, of "s\<lparr>heap := (heap s)(r \<mapsto> w\<lparr>isAlive := False\<rparr>)\<rparr>"]
      by (simp add: fst_heartbeat_loop_Cons snd_heartbeat_loop_Cons del: heartbeat_loop.simps)
  next
    case False
    then have ne: "r \<noteq> a" by simp
    have h: "heap (fst (heartbeat_each s a)) r = Some w"
      using heap_heartbeat_each_other[OF ne, of s] Cons.prems(1) by simp
    have "r \<in> set rs" "distinct rs" using Cons.prems(3,4) False by auto
    from Cons.IH[OF h Cons.prems(2) this] effects_heartbeat_each_other[OF ne, of s]
    show ?thesis
      by (simp add: fst_heartbeat_loop_Cons snd_heartbeat_loop_Cons del: heartbeat_loop.simps)
  qed
qed

lemma heartbeat_loop_dead:
  assumes "heap s r = Some w" "\<not> isAlive w" "r \<in> set rs"
  shows "Terminate r \<in> set (snd (heartbeat_loop s rs))"
  using assms
proof (induction rs arbitrary: s)
  case Nil
  then show ?case by simp
next
  case (Cons a rs)
  show ?case
  proof (cases "a = r")
    case True
    then show ?thesis using heartbeat_each_dead[OF Cons.prems(1,2)]
      by (simp add: snd_heartbeat_loop_Cons del: heartbeat_loop.simps)
  next
    case False
    then have ne: "r \<noteq> a" by simp
    have h: "heap (fst (heartbeat_each s a)) r = Some w"
      using heap_heartbeat_each_other[OF ne, of s] Cons.prems(1) by simp
    have "r \<in> set rs" using Cons.prems(3) False by auto
    from Cons.IH[OF h Cons.prems(2) this] show ?thesis
      by (simp add: snd_heartbeat_loop_Cons del: heartbeat_loop.simps)
  qed
qed

lemma heartbeat_loop_dead_no_ping:
  assumes "heap s r = Some w" "\<not> isAlive w"
  shows "Ping r \<notin> set (snd (heartbeat_loop s rs))"
  using assms
proof (induction rs arbitrary: s w)
  case Nil
  then show ?case by simp
next
  case (Cons a rs)
  obtain w1 where w1: "heap (fst (heartbeat_each s a)) r = Some w1" "isAlive w1 \<longrightarrow> isAlive w"
    using heartbeat_each_evolves[OF Cons.prems(1), of a] by blast
  have d: "\<not> isAlive w1" using w1(2) Cons.prems(2) by simp
  have "Ping r \<notin> set (snd (heartbeat_each s a))"
    using Cons.prems by (cases "a = r") (auto simp: heartbeat_each_def split: option.splits)
  then show ?case using Cons.IH[OF w1(1) d]
    by (simp add: snd_heartbeat_loop_Cons del: heartbeat_loop.simps)
qed

lemma in_wss_clients_step:
  assumes "r \<in> set (wss_clients s)" "e \<noteq> CloseEvent r"
  shows "r \<in> set (wss_clients (fst (step s e)))"
proof (cases e)
  case (Connection r' uuid now url)
  then show ?thesis using assms by (simp add: wss_clients_on_connection)
next
  case (Message r' now parsed)
  then show ?thesis using assms by (simp add: tables_on_message)
next
  case (Pong r')
  then show ?thesis using assms by (simp add: tables_on_pong)
next
  case (CloseEvent r')
  then have "r' \<noteq> r" using assms(2) by simp
  show ?thesis
  proof (cases "heap s r'")
    case None
    then show ?thesis using CloseEvent assms(1) by (simp add: emit_close_def)
  next
    case (Some a)
    then show ?thesis using CloseEvent assms(1) \<open>r' \<noteq> r\<close>
      by (simp add: wss_clients_emit_close[OF Some])
  qed
next
  case (ErrorEvent r')
  then show ?thesis using assms by simp
next
  case Tick
  then show ?thesis using assms by (simp add: heartbeat_def heartbeat_loop_keeps)
qed

lemma stays_dead:
  assumes "heap s r = Some w" "\<not> isAlive w" "r \<in> set (wss_clients s)"
    "\<forall>e\<in>set es. e \<noteq> Pong r \<and> e \<noteq> CloseEvent r \<and> \<not> allocates e r"
  shows "\<exists>w'. heap (fst (run s es)) r = Some w' \<and> \<not> isAlive w' \<and> clientId w' = clientId w \<and>
              r \<in> set (wss_clients (fst (run s es)))"
  using assms
proof (induction es arbitrary: s w)
  case Nil
  then show ?case by simp
next
  case (Cons e es)
  have e: "e \<noteq> Pong r" "e \<noteq> CloseEvent r" "\<not> allocates e r" using Cons.prems(4) by simp_all
  obtain w1 where w1: "heap (fst (step s e)) r = Some w1" "isAlive w1 \<longrightarrow> isAlive w"
      "evolves w w1"
    using step_evolves[OF Cons.prems(1) e(3)] e(1) by blast
  have d: "\<not> isAlive w1" using w1(2) Cons.prems(2) by simp
  have i: "clientId w1 = clientId w" using w1(3) by (simp add: evolves_def)
  have m: "r \<in> set (wss_clients (fst (step s e)))"
    by (rule in_wss_clients_step[OF Cons.prems(3) e(2)])
  have "\<forall>e\<in>set es. e \<noteq> Pong r \<and> e \<noteq> CloseEvent r \<and> \<not> allocates e r"
    using Cons.prems(4) by simp
  from Cons.IH[OF w1(1) d m this] i show ?case
    by (simp add: fst_run_Cons del: run.simps step.simps)
qed

lemma run_append:
  "fst (run s (xs @ ys)) = fst (run (fst (run s xs)) ys) \<and>
   snd (run s (xs @ ys)) = snd (run s xs) @ snd (run (fst (run s xs)) ys)"
  by (induction xs arbitrary: s) (simp_all add: split_def Let_def)

text \<open>After a tick no socket of \<open>wss.clients\<close> is alive.\<close>

lemma heartbeat_loop_marks:
  "heap s r = Some w \<Longrightarrow> r \<in> set rs \<Longrightarrow>
   \<exists>w'. heap (fst (heartbeat_loop s rs)) r = Some w' \<and> \<not> isAlive w'"
proof (induction rs arbitrary: s w)
  case Nil
  then show ?case by simp
next
  case (Cons a rs)
  show ?case
  proof (cases "a = r")
    case True
    have "\<exists>w1. heap (fst (heartbeat_each s r)) r = Some w1 \<and> \<not> isAlive w1"
      using Cons.prems(1)
      by (auto simp: heartbeat_each_def ws_terminate_def split: option.splits)
    then obtain w1 where w1: "heap (fst (heartbeat_each s r)) r = Some w1" "\<not> isAlive w1"
      by blast
    obtain w2 where "heap (fst (heartbeat_loop (fst (heartbeat_each s r)) rs)) r = Some w2"
        "isAlive w2 \<longrightarrow> isAlive w1"
      using heartbeat_loop_evolves[OF w1(1), of rs] by blast
    then show ?thesis using True w1(2)
      by (auto simp: fst_heartbeat_loop_Cons simp del: heartbeat_loop.simps)
  next
    case False
    then have ne: "r \<noteq> a" by simp
    have h: "heap (fst (heartbeat_each s a)) r = Some w"
      using heap_heartbeat_each_other[OF ne, of s] Cons.prems(1) by simp
    have "r \<in> set rs" using Cons.prems(2) False by auto
    from Cons.IH[OF h this] show ?thesis
      by (simp add: fst_heartbeat_loop_Cons del: heartbeat_loop.simps)
  qed
qed

text \<open>The state in which a tick leaves a socket that it terminates.\<close>

lemma heartbeat_loop_dead_state:
  assumes "heap s r = Some w" "\<not> isAlive w" "r \<in> set rs" "distinct rs"
  shows "heap (fst (heartbeat_loop s rs)) r =
           Some (if readyState w = CLOSED then w else w\<lparr>readyState := CLOSING\<rparr>)"
  using assms
proof (induction rs arbitrary: s)
  case Nil
  then show ?case by simp
next
  case (Cons a rs)
  show ?case
  proof (cases "a = r")
    case True
    then have nin: "r \<notin> set rs" using Cons.prems(4) by simp
    have "heap (ws_terminate s r) r =
            Some (if readyState w = CLOSED then w else w\<lparr>readyState := CLOSING\<rparr>)"
      using Cons.prems(1) by (simp add: ws_terminate_def)
    then show ?thesis
      using True heartbeat_each_dead[OF Cons.prems(1,2)]
        heartbeat_loop_other[OF nin, of "ws_terminate s r"]
      by (simp add: fst_heartbeat_loop_Cons del: heartbeat_loop.simps)
  next
    case False
    then have ne: "r \<noteq> a" by simp
    have h: "heap (fst (heartbeat_each s a)) r = Some w"
      using heap_heartbeat_each_other[OF ne, of s] Cons.prems(1) by simp
    have "r \<in> set rs" "distinct rs" using Cons.prems(3,4) False by auto
    from Cons.IH[OF h Cons.prems(2) this] show ?thesis
      by (simp add: fst_heartbeat_loop_Cons del: heartbeat_loop.simps)
  qed
qed

text \<open>A socket that is not alive is terminated at the next tick, unless a pong or its close comes first.\<close>

lemma dead_then_tick:
  assumes "heap s r = Some w" "\<not> isAlive w" "r \<in> set (wss_clients s)"
    "\<forall>e\<in>set es. e \<noteq> Pong r \<and> e \<noteq> CloseEvent r \<and> \<not> allocates e r"
    "1 \<le> length (filter (\<lambda>e. e = Tick) es)"
  shows "Terminate r \<in> set (snd (run s es))"
  using assms
proof (induction es arbitrary: s w)
  case Nil
  then show ?case by simp
next
  case (Cons e es)
  show ?case
  proof (cases "e = Tick")
    case True
    have "Terminate r \<in> set (snd (step s Tick))"
      using heartbeat_loop_dead[OF Cons.prems(1,2,3)] by (simp add: heartbeat_def)
    then show ?thesis using True by (simp add: snd_run_Cons del: run.simps step.simps)
  next
    case False
    have e: "e \<noteq> Pong r" "e \<noteq> CloseEvent r" "\<not> allocates e r" using Cons.prems(4) by simp_all
    obtain w1 where w1: "heap (fst (step s e)) r = Some w1" "isAlive w1 \<longrightarrow> isAlive w"
      using step_evolves[OF Cons.prems(1) e(3)] e(1) by blast
    have d: "\<not> isAlive w1" using w1(2) Cons.prems(2) by simp
    have m: "r \<in> set (wss_clients (fst (step s e)))"
      by (rule in_wss_clients_step[OF Cons.prems(3) e(2)])
    have q: "\<forall>e\<in>set es. e \<noteq> Pong r \<and> e \<noteq> CloseEvent r \<and> \<not> allocates e r"
      using Cons.prems(4) by simp
    have n: "1 \<le> length (filter (\<lambda>e. e = Tick) es)" using Cons.prems(5) False by simp
    from Cons.IH[OF w1(1) d m q n] show ?thesis
      by (simp add: snd_run_Cons del: run.simps step.simps)
  qed
qed

lemma two_ticks_among:
  assumes "heap s r = Some w" "r \<in> set (wss_clients s)"
    "\<forall>e\<in>set es. e \<noteq> Pong r \<and> e \<noteq> CloseEvent r \<and> \<not> allocates e r"
    "2 \<le> length (filter (\<lambda>e. e = Tick) es)"
  shows "Terminate r \<in> set (snd (run s es))"
  using assms
proof (induction es arbitrary: s w)
  case Nil
  then show ?case by simp
next
  case (Cons e es)
  have q: "\<forall>e\<in>set es. e \<noteq> Pong r \<and> e \<noteq> CloseEvent r \<and> \<not> allocates e r"
    using Cons.prems(3) by simp
  show ?case
  proof (cases "e = Tick")
    case True
    obtain w1 where w1: "heap (fst (step s Tick)) r = Some w1" "\<not> isAlive w1"
      using heartbeat_loop_marks[OF Cons.prems(1,2)] by (auto simp: heartbeat_def)
    have m: "r \<in> set (wss_clients (fst (step s Tick)))"
      using Cons.prems(2) by (simp add: heartbeat_def heartbeat_loop_keeps)
    have n: "1 \<le> length (filter (\<lambda>e. e = Tick) es)" using Cons.prems(4) True by simp
    from dead_then_tick[OF w1 m q n] show ?thesis using True
      by (simp add: snd_run_Cons del: run.simps step.simps)
  next
    case False
    have e: "e \<noteq> CloseEvent r" "\<not> allocates e r" using Cons.prems(3) by simp_all
    obtain w1 where w1: "heap (fst (step s e)) r = Some w1"
      using step_evolves[OF Cons.prems(1) e(2)] by blast
    have m: "r \<in> set (wss_clients (fst (step s e)))"
      by (rule in_wss_clients_step[OF Cons.prems(2) e(1)])
    have n: "2 \<le> length (filter (\<lambda>e. e = Tick) es)" using Cons.prems(4) False by simp
    from Cons.IH[OF w1 m q n] show ?thesis
      by (simp add: snd_run_Cons del: run.simps step.simps)
  qed
qed

lemma two_ticks:
  assumes "heap s r = Some w" "r \<in> set (wss_clients s)"
    "\<forall>e\<in>set es. e \<noteq> Pong r \<and> e \<noteq> CloseEvent r \<and> \<not> allocates e r"
  shows "Terminate r \<in> set (snd (run s (Tick # es @ [Tick])))"
proof -
  have q: "\<forall>e\<in>set (Tick # es @ [Tick]). e \<noteq> Pong r \<and> e \<noteq> CloseEvent r \<and> \<not> allocates e r"
    using assms(3) by simp
  have n: "2 \<le> length (filter (\<lambda>e. e = Tick) (Tick # es @ [Tick]))" by simp
  show ?thesis by (rule two_ticks_among[OF assms(1,2) q n])
qed

text \<open>A socket that answers no ping is not alive when the next tick comes.\<close>

lemma missed_probe:
  assumes "heap s r = Some w" "r \<in> set (wss_clients s)"
    "\<forall>e\<in>set es. e \<noteq> Pong r \<and> e \<noteq> CloseEvent r \<and> \<not> allocates e r"
  shows "\<exists>w'. heap (fst (run s (Tick # es))) r = Some w' \<and> \<not> isAlive w' \<and>
              clientId w' = clientId w \<and> r \<in> set (wss_clients (fst (run s (Tick # es))))"
proof -
  obtain w1 where w1: "heap (fst (step s Tick)) r = Some w1" "\<not> isAlive w1"
    using heartbeat_loop_marks[OF assms(1,2)] by (auto simp: heartbeat_def)
  have i: "clientId w1 = clientId w"
    using step_evolves[OF assms(1), of Tick] w1(1) by (auto simp: evolves_def)
  have m: "r \<in> set (wss_clients (fst (step s Tick)))"
    using assms(2) by (simp add: heartbeat_def heartbeat_loop_keeps)
  from stays_dead[OF w1 m assms(3)] i show ?thesis
    by (simp add: fst_run_Cons del: run.simps step.simps)
qed

subsection \<open>The close events that follow a tick\<close>

lemma closes_of_append: "closes_of (xs @ ys) = closes_of xs @ closes_of ys"
  by (induction xs rule: closes_of.induct) simp_all

lemma in_closes_of: "CloseEvent r \<in> set (closes_of out) \<longleftrightarrow> Terminate r \<in> set out"
  by (induction out rule: closes_of.induct) auto

lemma closes_of_heartbeat_each:
  "closes_of (snd (heartbeat_each s a)) = [] \<or>
   closes_of (snd (heartbeat_each s a)) = [CloseEvent a]"
  by (auto simp: heartbeat_each_def split: option.splits)

lemma closes_of_heartbeat_loop:
  "\<exists>ts. closes_of (snd (heartbeat_loop s rs)) = map CloseEvent ts \<and> set ts \<subseteq> set rs \<and>
        (distinct rs \<longrightarrow> distinct ts)"
proof (induction rs arbitrary: s)
  case Nil
  then show ?case by simp
next
  case (Cons a rs)
  obtain ts where ts:
      "closes_of (snd (heartbeat_loop (fst (heartbeat_each s a)) rs)) = map CloseEvent ts"
      "set ts \<subseteq> set rs" "distinct rs \<longrightarrow> distinct ts"
    using Cons.IH[of "fst (heartbeat_each s a)"] by blast
  have out: "closes_of (snd (heartbeat_loop s (a # rs))) =
      closes_of (snd (heartbeat_each s a)) @ map CloseEvent ts"
    using ts(1) by (simp add: snd_heartbeat_loop_Cons closes_of_append del: heartbeat_loop.simps)
  consider (none) "closes_of (snd (heartbeat_each s a)) = []"
    | (one) "closes_of (snd (heartbeat_each s a)) = [CloseEvent a]"
    using closes_of_heartbeat_each by blast
  then show ?case
  proof cases
    case none
    have "closes_of (snd (heartbeat_loop s (a # rs))) = map CloseEvent ts \<and>
          set ts \<subseteq> set (a # rs) \<and> (distinct (a # rs) \<longrightarrow> distinct ts)"
      using out none ts(2,3) by auto
    then show ?thesis by blast
  next
    case one
    have "closes_of (snd (heartbeat_loop s (a # rs))) = map CloseEvent (a # ts) \<and>
          set (a # ts) \<subseteq> set (a # rs) \<and> (distinct (a # rs) \<longrightarrow> distinct (a # ts))"
      using out one ts(2,3) by auto
    then show ?thesis by blast
  qed
qed

lemma set_wss_clients_emit_close:
  "set (wss_clients (emit_close s t)) =
     (if heap s t = None then set (wss_clients s) else set (wss_clients s) - {t})"
proof (cases "heap s t")
  case None
  then show ?thesis by (simp add: emit_close_def)
next
  case (Some a)
  then show ?thesis by (simp add: wss_clients_emit_close[OF Some])
qed

lemma valid_closes:
  "distinct ts \<Longrightarrow> set ts \<subseteq> set (wss_clients s) \<Longrightarrow> valid_run s (map CloseEvent ts)"
proof (induction ts arbitrary: s)
  case Nil
  then show ?case by simp
next
  case (Cons t ts)
  have "set ts \<subseteq> set (wss_clients (emit_close s t))"
    using Cons.prems by (auto simp: set_wss_clients_emit_close)
  then have "valid_run (emit_close s t) (map CloseEvent ts)"
    using Cons.IH Cons.prems(1) by simp
  then show ?case using Cons.prems(2) by simp
qed

lemma wss_clients_after_closes:
  "set (wss_clients (fst (run s (map CloseEvent ts)))) \<subseteq> set (wss_clients s)"
proof (induction ts arbitrary: s)
  case Nil
  then show ?case by simp
next
  case (Cons t ts)
  have "set (wss_clients (fst (run (emit_close s t) (map CloseEvent ts)))) \<subseteq>
        set (wss_clients (emit_close s t))"
    by (rule Cons.IH)
  also have "\<dots> \<subseteq> set (wss_clients s)" by (auto simp: set_wss_clients_emit_close)
  finally show ?case by (simp add: fst_run_Cons del: run.simps)
qed

lemma closed_after_closes:
  "r \<in> set ts \<Longrightarrow> heap s r = Some w \<Longrightarrow>
   r \<notin> set (wss_clients (fst (run s (map CloseEvent ts))))"
proof (induction ts arbitrary: s w)
  case Nil
  then show ?case by simp
next
  case (Cons t ts)
  show ?case
  proof (cases "t = r")
    case True
    have "r \<notin> set (wss_clients (emit_close s r))"
      using Cons.prems(2) by (simp add: set_wss_clients_emit_close)
    then show ?thesis
      using True wss_clients_after_closes[of "emit_close s r" ts]
      by (auto simp: fst_run_Cons simp del: run.simps)
  next
    case False
    then have m: "r \<in> set ts" using Cons.prems(1) by simp
    obtain w1 where w1: "heap (emit_close s t) r = Some w1"
      using emit_close_evolves[OF Cons.prems(2), of t] by blast
    from Cons.IH[OF m w1] show ?thesis by (simp add: fst_run_Cons del: run.simps)
  qed
qed

text \<open>
  A tick that finds a socket not alive, followed by the close events of the sockets it
  terminated, is an execution, and it leaves the socket closed and its id in no table.
\<close>

lemma terminated_torn_down:
  assumes "reachable s" "heap s r = Some w" "r \<in> set (wss_clients s)" "\<not> isAlive w"
  shows "valid_run s (Tick # closes_of (snd (step s Tick))) \<and>
         CloseEvent r \<in> set (closes_of (snd (step s Tick))) \<and>
         r \<notin> set (wss_clients (fst (run s (Tick # closes_of (snd (step s Tick)))))) \<and>
         (\<exists>w'. heap (fst (run s (Tick # closes_of (snd (step s Tick))))) r = Some w' \<and>
               readyState w' = CLOSED) \<and>
         clients (fst (run s (Tick # closes_of (snd (step s Tick))))) (clientId w) = None \<and>
         (\<forall>X. clientId w \<notin> set (bucket (deviceIdClients
                 (fst (run s (Tick # closes_of (snd (step s Tick)))))) X)) \<and>
         (\<forall>X. clientId w \<notin> set (bucket (productIdClients
                 (fst (run s (Tick # closes_of (snd (step s Tick)))))) X))"
proof -
  let ?s1 = "fst (step s Tick)"
  let ?es = "Tick # closes_of (snd (step s Tick))"
  let ?f = "fst (run s ?es)"
  have ds: "distinct (wss_clients s)"
    using reachable_inv[OF assms(1)] by (simp add: inv_def inv_sockets_def)
  obtain ts where ts: "closes_of (snd (step s Tick)) = map CloseEvent ts"
      "set ts \<subseteq> set (wss_clients s)" "distinct ts"
    using closes_of_heartbeat_loop[of s "wss_clients s"] ds by (auto simp: heartbeat_def)
  have wc: "wss_clients ?s1 = wss_clients s" by (simp add: heartbeat_def heartbeat_loop_keeps)
  have v1: "valid_run ?s1 (map CloseEvent ts)"
  proof (rule valid_closes[OF ts(3)])
    show "set ts \<subseteq> set (wss_clients ?s1)" unfolding wc by (rule ts(2))
  qed
  have v: "valid_run s ?es" using v1 ts(1) by (simp del: step.simps)
  have t: "Terminate r \<in> set (snd (step s Tick))"
    using heartbeat_loop_dead[OF assms(2,4,3)] by (simp add: heartbeat_def)
  then have c: "CloseEvent r \<in> set (closes_of (snd (step s Tick)))" by (simp add: in_closes_of)
  then have rt: "r \<in> set ts" using ts(1) by auto
  obtain w1 where h1: "heap ?s1 r = Some w1"
    using step_evolves[OF assms(2), of Tick] by auto
  have f: "?f = fst (run ?s1 (map CloseEvent ts))"
    using ts(1) by (simp add: fst_run_Cons del: run.simps step.simps)
  have nr: "r \<notin> set (wss_clients ?f)"
    unfolding f by (rule closed_after_closes[OF rt h1])
  have re: "reachable ?f" by (rule reachable_run[OF assms(1) v])
  have iv: "inv ?f" by (rule reachable_inv[OF re])
  obtain w' where w': "heap ?f r = Some w'" "evolves w w'"
    using valid_run_evolves[OF assms(2) v] by blast
  have bw: "bindings ?f r = Some (binding_of w')" using w'(1) by (simp add: bindings_def)
  have "inv_sockets ?f" using iv by (simp add: inv_def)
  then have "b_closed (binding_of w') \<longleftrightarrow> r \<notin> set (wss_clients ?f)"
    using bw unfolding inv_sockets_def by blast
  then have cl: "readyState w' = CLOSED" using nr by (simp add: binding_of_def)
  have id: "clientId w' = clientId w" using w'(2) by (simp add: evolves_def)
  have ab: "clients ?f (clientId w) = None \<and>
         (\<forall>X. clientId w \<notin> set (bucket (deviceIdClients ?f) X)) \<and>
         (\<forall>X. clientId w \<notin> set (bucket (productIdClients ?f) X))"
    using closed_absent[OF iv w'(1) cl] id by simp
  have ex: "\<exists>w'. heap ?f r = Some w' \<and> readyState w' = CLOSED" using w'(1) cl by blast
  show ?thesis using v c nr ex ab by blast
qed

subsection \<open>Timed executions\<close>

text \<open>An event later than the tick that is due comes after that tick.\<close>

lemma ticks_before:
  "on_schedule c d (tr @ [(t, e)]) \<Longrightarrow> d + int k * heartbeat_ms < t \<Longrightarrow>
   k < length (filter (\<lambda>x. snd x = Tick) tr)"
proof (induction tr arbitrary: c d k)
  case Nil
  have "0 \<le> int k * heartbeat_ms" by (simp add: heartbeat_ms_def)
  then show ?case using Nil by simp
next
  case (Cons x tr)
  obtain t1 e1 where x: "x = (t1, e1)" by (cases x)
  show ?case
  proof (cases "e1 = Tick")
    case True
    then have s: "on_schedule t1 (d + heartbeat_ms) (tr @ [(t, e)])"
      using Cons.prems(1) x by auto
    show ?thesis
    proof (cases k)
      case 0
      then show ?thesis using True x by simp
    next
      case (Suc k')
      then have "d + heartbeat_ms + int k' * heartbeat_ms < t"
        using Cons.prems(2) by (simp add: algebra_simps)
      from Cons.IH[OF s this] show ?thesis using True x Suc by simp
    qed
  next
    case False
    then have s: "on_schedule t1 d (tr @ [(t, e)])" using Cons.prems(1) x by simp
    from Cons.IH[OF s Cons.prems(2)] show ?thesis using False x by simp
  qed
qed

lemma next_tick_when_due:
  "on_schedule c d (tr @ [(t, Tick)]) \<Longrightarrow> \<forall>x\<in>set tr. snd x \<noteq> Tick \<Longrightarrow> t = d"
proof (induction tr arbitrary: c)
  case Nil
  then show ?case by simp
next
  case (Cons x tr)
  obtain t1 e1 where x: "x = (t1, e1)" by (cases x)
  have "e1 \<noteq> Tick" using Cons.prems(2) x by simp
  then have "on_schedule t1 d (tr @ [(t, Tick)])" using Cons.prems(1) x by simp
  moreover have "\<forall>x\<in>set tr. snd x \<noteq> Tick" using Cons.prems(2) by simp
  ultimately show ?case by (rule Cons.IH)
qed

lemma terminated_in_time:
  assumes "heap s r = Some w" "r \<in> set (wss_clients s)"
    "on_schedule c d ((t0, Pong r) # tr @ [(t, e)])"
    "\<forall>x\<in>set tr. snd x \<noteq> Pong r \<and> snd x \<noteq> CloseEvent r \<and> \<not> allocates (snd x) r"
    "t0 + 30000 < t"
  shows "Terminate r \<in> set (snd (run s (Pong r # map snd tr)))"
proof -
  have b: "c \<le> t0" "d \<le> c + heartbeat_ms" and s: "on_schedule t0 d (tr @ [(t, e)])"
    using assms(3) by simp_all
  have "d + int 1 * heartbeat_ms < t" using b assms(5) by (simp add: heartbeat_ms_def)
  from ticks_before[OF s this]
  have "2 \<le> length (filter (\<lambda>x. snd x = Tick) tr)" by simp
  then have n: "2 \<le> length (filter (\<lambda>e. e = Tick) (map snd tr))"
    by (simp add: filter_map comp_def)
  obtain w1 where w1: "heap (fst (step s (Pong r))) r = Some w1"
    using step_evolves[OF assms(1), of "Pong r"] by auto
  have m: "r \<in> set (wss_clients (fst (step s (Pong r))))"
    by (rule in_wss_clients_step[OF assms(2)]) simp
  have q: "\<forall>e\<in>set (map snd tr). e \<noteq> Pong r \<and> e \<noteq> CloseEvent r \<and> \<not> allocates e r"
    using assms(4) by simp
  from two_ticks_among[OF w1 m q n] show ?thesis
    by (simp add: snd_run_Cons del: run.simps step.simps)
qed

text \<open>
  C5. The timer has a period of 15000 ms: two consecutive ticks of a timed execution are
  15000 ms apart. At a tick, a socket of \<open>wss.clients\<close> whose isAlive is false is
  terminated and gets no ping: it is no longer OPEN and its close event follows. Every
  other socket gets a ping, its isAlive becomes false and it is not terminated. A pong
  sets isAlive to true, and no other event does. The tick that terminates a socket,
  followed by the close events of the sockets it terminated, is an execution of the relay
  that leaves the socket closed, out of \<open>wss.clients\<close>, and its id in neither
  \<open>clients\<close> nor a bucket. A socket that answers no ping and is not closed meanwhile is
  found not alive at the second of two ticks at the latest, whatever happens between
  them, and is terminated and torn down there. In a timed execution, a socket whose last
  pong came at \<open>t0\<close> has been terminated before any event later than \<open>t0 + 30000\<close>.
\<close>

theorem liveness:
  assumes "heap s r = Some w" "r \<in> set (wss_clients s)" "distinct (wss_clients s)"
  shows "(on_schedule c d ((t1, Tick) # tr @ [(t2, Tick)]) \<and> (\<forall>x\<in>set tr. snd x \<noteq> Tick) \<longrightarrow>
            t2 = t1 + 15000) \<and>
         (\<not> isAlive w \<longrightarrow>
            Terminate r \<in> set (snd (step s Tick)) \<and> Ping r \<notin> set (snd (step s Tick)) \<and>
            CloseEvent r \<in> set (closes_of (snd (step s Tick))) \<and>
            heap (fst (step s Tick)) r =
              Some (if readyState w = CLOSED then w else w\<lparr>readyState := CLOSING\<rparr>)) \<and>
         (isAlive w \<longrightarrow>
            Ping r \<in> set (snd (step s Tick)) \<and> Terminate r \<notin> set (snd (step s Tick)) \<and>
            CloseEvent r \<notin> set (closes_of (snd (step s Tick))) \<and>
            heap (fst (step s Tick)) r = Some (w\<lparr>isAlive := False\<rparr>)) \<and>
         (listening w \<longrightarrow> heap (fst (step s (Pong r))) r = Some (w\<lparr>isAlive := True\<rparr>)) \<and>
         (\<not> isAlive w \<and> e \<noteq> Pong r \<and> \<not> allocates e r \<longrightarrow>
            (\<exists>w'. heap (fst (step s e)) r = Some w' \<and> \<not> isAlive w')) \<and>
         (reachable s \<and> \<not> isAlive w \<longrightarrow>
            valid_run s (Tick # closes_of (snd (step s Tick))) \<and>
            r \<notin> set (wss_clients (fst (run s (Tick # closes_of (snd (step s Tick)))))) \<and>
            (\<exists>w'. heap (fst (run s (Tick # closes_of (snd (step s Tick))))) r = Some w' \<and>
                  readyState w' = CLOSED) \<and>
            clients (fst (run s (Tick # closes_of (snd (step s Tick))))) (clientId w) = None \<and>
            (\<forall>X. clientId w \<notin> set (bucket (deviceIdClients
                    (fst (run s (Tick # closes_of (snd (step s Tick)))))) X)) \<and>
            (\<forall>X. clientId w \<notin> set (bucket (productIdClients
                    (fst (run s (Tick # closes_of (snd (step s Tick)))))) X))) \<and>
         ((\<forall>e\<in>set es. e \<noteq> Pong r \<and> e \<noteq> CloseEvent r \<and> \<not> allocates e r) \<longrightarrow>
            Terminate r \<in> set (snd (run s (Tick # es @ [Tick]))) \<and>
            (\<exists>w'. heap (fst (run s (Tick # es))) r = Some w' \<and> \<not> isAlive w' \<and>
                  clientId w' = clientId w \<and> r \<in> set (wss_clients (fst (run s (Tick # es)))) \<and>
                  Terminate r \<in> set (snd (step (fst (run s (Tick # es))) Tick)))) \<and>
         ((\<forall>e\<in>set es. e \<noteq> Pong r \<and> e \<noteq> CloseEvent r \<and> \<not> allocates e r) \<and>
          reachable s \<and> valid_run s (Tick # es) \<longrightarrow>
            clients (fst (run (fst (run s (Tick # es)))
              (Tick # closes_of (snd (step (fst (run s (Tick # es))) Tick))))) (clientId w) = None \<and>
            (\<forall>X. clientId w \<notin> set (bucket (deviceIdClients (fst (run (fst (run s (Tick # es)))
              (Tick # closes_of (snd (step (fst (run s (Tick # es))) Tick)))))) X)) \<and>
            (\<forall>X. clientId w \<notin> set (bucket (productIdClients (fst (run (fst (run s (Tick # es)))
              (Tick # closes_of (snd (step (fst (run s (Tick # es))) Tick)))))) X)) \<and>
            r \<notin> set (wss_clients (fst (run (fst (run s (Tick # es)))
              (Tick # closes_of (snd (step (fst (run s (Tick # es))) Tick))))))) \<and>
         (on_schedule c d ((t0, Pong r) # tr @ [(t, e')]) \<and>
          (\<forall>x\<in>set tr. snd x \<noteq> Pong r \<and> snd x \<noteq> CloseEvent r \<and> \<not> allocates (snd x) r) \<and>
          t0 + 30000 < t \<longrightarrow>
            Terminate r \<in> set (snd (run s (Pong r # map snd tr))))"
proof -
  have 0: "on_schedule c d ((t1, Tick) # tr @ [(t2, Tick)]) \<and> (\<forall>x\<in>set tr. snd x \<noteq> Tick) \<longrightarrow>
            t2 = t1 + 15000"
  proof (intro impI)
    assume a: "on_schedule c d ((t1, Tick) # tr @ [(t2, Tick)]) \<and> (\<forall>x\<in>set tr. snd x \<noteq> Tick)"
    then have "t1 = d" and "on_schedule t1 (d + heartbeat_ms) (tr @ [(t2, Tick)])" by auto
    then show "t2 = t1 + 15000"
      using next_tick_when_due[of t1 "d + heartbeat_ms" tr t2] a by (simp add: heartbeat_ms_def)
  qed
  have 1: "\<not> isAlive w \<longrightarrow>
            Terminate r \<in> set (snd (step s Tick)) \<and> Ping r \<notin> set (snd (step s Tick)) \<and>
            CloseEvent r \<in> set (closes_of (snd (step s Tick))) \<and>
            heap (fst (step s Tick)) r =
              Some (if readyState w = CLOSED then w else w\<lparr>readyState := CLOSING\<rparr>)"
    using heartbeat_loop_dead[OF assms(1) _ assms(2)] heartbeat_loop_dead_no_ping[OF assms(1)]
      heartbeat_loop_dead_state[OF assms(1) _ assms(2,3)]
    by (simp add: heartbeat_def in_closes_of)
  have 2: "isAlive w \<longrightarrow>
            Ping r \<in> set (snd (step s Tick)) \<and> Terminate r \<notin> set (snd (step s Tick)) \<and>
            CloseEvent r \<notin> set (closes_of (snd (step s Tick))) \<and>
            heap (fst (step s Tick)) r = Some (w\<lparr>isAlive := False\<rparr>)"
    using heartbeat_loop_alive[OF assms(1) _ assms(2,3)] by (simp add: heartbeat_def in_closes_of)
  have 3: "listening w \<longrightarrow> heap (fst (step s (Pong r))) r = Some (w\<lparr>isAlive := True\<rparr>)"
    using assms(1) by (simp add: has_listeners_def on_pong_def)
  have 4: "\<not> isAlive w \<and> e \<noteq> Pong r \<and> \<not> allocates e r \<longrightarrow>
            (\<exists>w'. heap (fst (step s e)) r = Some w' \<and> \<not> isAlive w')"
    using step_evolves[OF assms(1), of e] by blast
  have 5: "reachable s \<and> \<not> isAlive w \<longrightarrow>
            valid_run s (Tick # closes_of (snd (step s Tick))) \<and>
            r \<notin> set (wss_clients (fst (run s (Tick # closes_of (snd (step s Tick)))))) \<and>
            (\<exists>w'. heap (fst (run s (Tick # closes_of (snd (step s Tick))))) r = Some w' \<and>
                  readyState w' = CLOSED) \<and>
            clients (fst (run s (Tick # closes_of (snd (step s Tick))))) (clientId w) = None \<and>
            (\<forall>X. clientId w \<notin> set (bucket (deviceIdClients
                    (fst (run s (Tick # closes_of (snd (step s Tick)))))) X)) \<and>
            (\<forall>X. clientId w \<notin> set (bucket (productIdClients
                    (fst (run s (Tick # closes_of (snd (step s Tick)))))) X))"
    using terminated_torn_down[OF _ assms(1,2)] by blast
  have 6: "(\<forall>e\<in>set es. e \<noteq> Pong r \<and> e \<noteq> CloseEvent r \<and> \<not> allocates e r) \<longrightarrow>
            Terminate r \<in> set (snd (run s (Tick # es @ [Tick]))) \<and>
            (\<exists>w'. heap (fst (run s (Tick # es))) r = Some w' \<and> \<not> isAlive w' \<and>
                  clientId w' = clientId w \<and> r \<in> set (wss_clients (fst (run s (Tick # es)))) \<and>
                  Terminate r \<in> set (snd (step (fst (run s (Tick # es))) Tick)))"
  proof (intro impI)
    assume q: "\<forall>e\<in>set es. e \<noteq> Pong r \<and> e \<noteq> CloseEvent r \<and> \<not> allocates e r"
    have tt: "Terminate r \<in> set (snd (run s (Tick # es @ [Tick])))"
      by (rule two_ticks[OF assms(1,2) q])
    obtain w2 where w2: "heap (fst (run s (Tick # es))) r = Some w2" "\<not> isAlive w2"
        "clientId w2 = clientId w" "r \<in> set (wss_clients (fst (run s (Tick # es))))"
      using missed_probe[OF assms(1,2) q] by blast
    have "Terminate r \<in> set (snd (step (fst (run s (Tick # es))) Tick))"
      using heartbeat_loop_dead[OF w2(1,2,4)] by (simp add: heartbeat_def)
    then show "Terminate r \<in> set (snd (run s (Tick # es @ [Tick]))) \<and>
            (\<exists>w'. heap (fst (run s (Tick # es))) r = Some w' \<and> \<not> isAlive w' \<and>
                  clientId w' = clientId w \<and> r \<in> set (wss_clients (fst (run s (Tick # es)))) \<and>
                  Terminate r \<in> set (snd (step (fst (run s (Tick # es))) Tick)))"
      using tt w2 by blast
  qed
  have 7: "(\<forall>e\<in>set es. e \<noteq> Pong r \<and> e \<noteq> CloseEvent r \<and> \<not> allocates e r) \<and>
          reachable s \<and> valid_run s (Tick # es) \<longrightarrow>
            clients (fst (run (fst (run s (Tick # es)))
              (Tick # closes_of (snd (step (fst (run s (Tick # es))) Tick))))) (clientId w) = None \<and>
            (\<forall>X. clientId w \<notin> set (bucket (deviceIdClients (fst (run (fst (run s (Tick # es)))
              (Tick # closes_of (snd (step (fst (run s (Tick # es))) Tick)))))) X)) \<and>
            (\<forall>X. clientId w \<notin> set (bucket (productIdClients (fst (run (fst (run s (Tick # es)))
              (Tick # closes_of (snd (step (fst (run s (Tick # es))) Tick)))))) X)) \<and>
            r \<notin> set (wss_clients (fst (run (fst (run s (Tick # es)))
              (Tick # closes_of (snd (step (fst (run s (Tick # es))) Tick))))))"
  proof (intro impI)
    assume a: "(\<forall>e\<in>set es. e \<noteq> Pong r \<and> e \<noteq> CloseEvent r \<and> \<not> allocates e r) \<and>
          reachable s \<and> valid_run s (Tick # es)"
    then have q: "\<forall>e\<in>set es. e \<noteq> Pong r \<and> e \<noteq> CloseEvent r \<and> \<not> allocates e r"
      and re: "reachable s" and v: "valid_run s (Tick # es)" by blast+
    obtain w2 where w2: "heap (fst (run s (Tick # es))) r = Some w2" "\<not> isAlive w2"
        "clientId w2 = clientId w" "r \<in> set (wss_clients (fst (run s (Tick # es))))"
      using missed_probe[OF assms(1,2) q] by blast
    have r2: "reachable (fst (run s (Tick # es)))" by (rule reachable_run[OF re v])
    from terminated_torn_down[OF r2 w2(1,4,2)] w2(3)
    show "clients (fst (run (fst (run s (Tick # es)))
              (Tick # closes_of (snd (step (fst (run s (Tick # es))) Tick))))) (clientId w) = None \<and>
            (\<forall>X. clientId w \<notin> set (bucket (deviceIdClients (fst (run (fst (run s (Tick # es)))
              (Tick # closes_of (snd (step (fst (run s (Tick # es))) Tick)))))) X)) \<and>
            (\<forall>X. clientId w \<notin> set (bucket (productIdClients (fst (run (fst (run s (Tick # es)))
              (Tick # closes_of (snd (step (fst (run s (Tick # es))) Tick)))))) X)) \<and>
            r \<notin> set (wss_clients (fst (run (fst (run s (Tick # es)))
              (Tick # closes_of (snd (step (fst (run s (Tick # es))) Tick))))))"
      by simp
  qed
  have 8: "on_schedule c d ((t0, Pong r) # tr @ [(t, e')]) \<and>
          (\<forall>x\<in>set tr. snd x \<noteq> Pong r \<and> snd x \<noteq> CloseEvent r \<and> \<not> allocates (snd x) r) \<and>
          t0 + 30000 < t \<longrightarrow>
            Terminate r \<in> set (snd (run s (Pong r # map snd tr)))"
    using terminated_in_time[OF assms(1,2)] by blast
  show ?thesis by (intro conjI) (rule 0 1 2 3 4 5 6 7 8)+
qed

lemma reachable_after_tick: "reachable (fst (step sample Tick))"
  using reachable_step[OF reachable_sample, of Tick] by simp

lemma valid_run_quiet:
  "valid_run sample [Tick, Message 1 20 None, Pong 1]"
proof -
  have a: "1 \<in> set (wss_clients sample)" by (simp add: sample_wss_clients)
  have b: "1 \<in> set (wss_clients (fst (step sample Tick)))"
    by (rule in_wss_clients_step[OF a]) simp
  have c: "1 \<in> set (wss_clients (fst (step (fst (step sample Tick)) (Message 1 20 None))))"
    by (rule in_wss_clients_step[OF b]) simp
  show ?thesis using b c by (simp del: step.simps)
qed

theorem liveness_witness:
  "heap sample 0 = Some ws0 \<and> 0 \<in> set (wss_clients sample) \<and> distinct (wss_clients sample) \<and>
   isAlive ws0 \<and> listening ws0 \<and>
   on_schedule 0 15000 [(15000, Tick), (20000, Pong 1), (30000, Tick)] \<and>
   Ping 0 \<in> set (snd (step sample Tick)) \<and>
   Terminate 0 \<notin> set (snd (step sample Tick)) \<and>
   heap (fst (step sample Tick)) 0 = Some (ws0\<lparr>isAlive := False\<rparr>) \<and>
   heap (fst (step (fst (step sample Tick)) (Pong 0))) 0 = Some ws0 \<and>
   Terminate 0 \<in> set (snd (step (fst (step sample Tick)) Tick)) \<and>
   Ping 0 \<notin> set (snd (step (fst (step sample Tick)) Tick)) \<and>
   heap (fst (step (fst (step sample Tick)) Tick)) 0 =
     Some (ws0\<lparr>isAlive := False, readyState := CLOSING\<rparr>) \<and>
   reachable (fst (step sample Tick)) \<and>
   clients (fst (run (fst (step sample Tick))
     (Tick # closes_of (snd (step (fst (step sample Tick)) Tick))))) ''c0'' = None \<and>
   ''c0'' \<notin> set (bucket (deviceIdClients (fst (run (fst (step sample Tick))
     (Tick # closes_of (snd (step (fst (step sample Tick)) Tick)))))) ''X'') \<and>
   0 \<notin> set (wss_clients (fst (run (fst (step sample Tick))
     (Tick # closes_of (snd (step (fst (step sample Tick)) Tick)))))) \<and>
   reachable sample \<and> valid_run sample [Tick, Message 1 20 None, Pong 1] \<and>
   Terminate 0 \<in> set (snd (run sample [Tick, Message 1 20 None, Pong 1, Tick])) \<and>
   clients (fst (run (fst (run sample [Tick, Message 1 20 None, Pong 1]))
     (Tick # closes_of (snd (step (fst (run sample [Tick, Message 1 20 None, Pong 1])) Tick)))))
     ''c0'' = None \<and>
   on_schedule 0 15000 [(10, Pong 0), (15000, Tick), (20000, Message 1 20000 None),
     (30000, Tick), (30020, Pong 1)] \<and>
   Terminate 0 \<in> set (snd (run sample [Pong 0, Tick, Message 1 20000 None, Tick]))"
proof -
  have m: "0 \<in> set (wss_clients sample)" "distinct (wss_clients sample)"
    by (simp_all add: sample_wss_clients)
  have a: "isAlive ws0" "listening ws0" "readyState ws0 = OPEN" "clientId ws0 = ''c0''"
    by (simp_all add: ws0_def)
  have s1: "on_schedule 0 15000 [(15000, Tick), (20000, Pong 1), (30000, Tick)]"
    by (simp add: heartbeat_ms_def)
  have s2: "on_schedule 0 15000 [(10, Pong 0), (15000, Tick), (20000, Message 1 20000 None),
     (30000, Tick), (30020, Pong 1)]"
    by (simp add: heartbeat_ms_def)
  note t = liveness[OF sample_heap0 m, where es = "[Message 1 20 None, Pong 1]"
      and c = 0 and d = 15000 and ?t0.0 = 10 and t = 30020 and e' = "Pong 1"
      and tr = "[(15000, Tick), (20000, Message 1 20000 None), (30000, Tick)]"]
  have h1: "heap (fst (step sample Tick)) 0 = Some (ws0\<lparr>isAlive := False\<rparr>)"
    using t a by (simp del: step.simps)
  have m1: "0 \<in> set (wss_clients (fst (step sample Tick)))"
    "distinct (wss_clients (fst (step sample Tick)))"
    using m by (simp_all add: heartbeat_def heartbeat_loop_keeps)
  note u = liveness[OF h1 m1, where c = 0 and d = 15000 and ?t1.0 = 15000 and ?t2.0 = 30000
      and tr = "[(20000, Pong 1)]"]
  have 1: "Ping 0 \<in> set (snd (step sample Tick))" "Terminate 0 \<notin> set (snd (step sample Tick))"
    using t a by (simp_all del: step.simps)
  have 2: "heap (fst (step (fst (step sample Tick)) (Pong 0))) 0 = Some ws0"
    using u a by (simp add: ws0_def del: step.simps)
  have 3: "Terminate 0 \<in> set (snd (step (fst (step sample Tick)) Tick))"
    "Ping 0 \<notin> set (snd (step (fst (step sample Tick)) Tick))"
    "heap (fst (step (fst (step sample Tick)) Tick)) 0 =
       Some (ws0\<lparr>isAlive := False, readyState := CLOSING\<rparr>)"
    using u a by (simp_all del: step.simps)
  have 4: "clients (fst (run (fst (step sample Tick))
      (Tick # closes_of (snd (step (fst (step sample Tick)) Tick))))) ''c0'' = None"
    "''c0'' \<notin> set (bucket (deviceIdClients (fst (run (fst (step sample Tick))
      (Tick # closes_of (snd (step (fst (step sample Tick)) Tick)))))) ''X'')"
    "0 \<notin> set (wss_clients (fst (run (fst (step sample Tick))
      (Tick # closes_of (snd (step (fst (step sample Tick)) Tick))))))"
    using u a reachable_after_tick
    by (simp_all del: step.simps run.simps valid_run.simps)
  have 5: "Terminate 0 \<in> set (snd (run sample [Tick, Message 1 20 None, Pong 1, Tick]))"
    using t by (simp del: step.simps run.simps)
  have 6: "clients (fst (run (fst (run sample [Tick, Message 1 20 None, Pong 1]))
     (Tick # closes_of (snd (step (fst (run sample [Tick, Message 1 20 None, Pong 1])) Tick)))))
     ''c0'' = None"
    using t a reachable_sample valid_run_quiet
    by (simp del: step.simps run.simps valid_run.simps)
  have 7: "Terminate 0 \<in> set (snd (run sample [Pong 0, Tick, Message 1 20000 None, Tick]))"
    using t s2 by (simp del: step.simps run.simps on_schedule.simps)
  show ?thesis
    using sample_heap0 m a(1,2) s1 1 h1 2 3 reachable_after_tick 4 reachable_sample
      valid_run_quiet 5 6 s2 7
    by (simp del: step.simps run.simps valid_run.simps on_schedule.simps)
qed

section \<open>Properties of the firmware endpoint\<close>

lemma takeWhile_digits: "x \<in> set (takeWhile is_digit s) \<Longrightarrow> is_digit x"
  by (rule set_takeWhileD[THEN conjunct2])

lemma not_digit_dot: "\<not> is_digit CHR ''.''"
  by (simp add: is_digit_def)

lemma match_here_sound:
  assumes "match_here s = Some v"
  shows "is_semver v \<and> (\<exists>post. s = v @ post)"
proof -
  let ?a = "takeWhile is_digit s"
  from assms obtain r2 where r2: "?a \<noteq> []" "dropWhile is_digit s = CHR ''.'' # r2"
    by (auto simp: match_here_def Let_def split: if_splits list.splits)
  let ?b = "takeWhile is_digit r2"
  from assms r2 obtain r4 where r4: "?b \<noteq> []" "dropWhile is_digit r2 = CHR ''.'' # r4"
    by (auto simp: match_here_def Let_def split: if_splits list.splits)
  let ?c = "takeWhile is_digit r4"
  from assms r2 r4 have c: "?c \<noteq> []" and v: "v = ?a @ ''.'' @ ?b @ ''.'' @ ?c"
    by (auto simp: match_here_def Let_def split: if_splits list.splits)
  have d: "\<forall>x\<in>set (?a @ ?b @ ?c). is_digit x" using takeWhile_digits by auto
  have sem: "is_semver v" unfolding is_semver_def using v r2(1) r4(1) c d by blast
  have "s = ?a @ dropWhile is_digit s" by simp
  also have "\<dots> = ?a @ CHR ''.'' # (?b @ dropWhile is_digit r2)" using r2(2) by simp
  also have "\<dots> = ?a @ CHR ''.'' # (?b @ CHR ''.'' # (?c @ dropWhile is_digit r4))"
    using r4(2) by simp
  finally have "s = v @ dropWhile is_digit r4" using v by simp
  then show ?thesis using sem by blast
qed

lemma match_semver_sound:
  "match_semver s = Some v \<Longrightarrow> is_semver v \<and> (\<exists>pre post. s = pre @ v @ post)"
proof (induction s)
  case Nil
  then show ?case by simp
next
  case (Cons c cs)
  show ?case
  proof (cases "match_here (c # cs)")
    case (Some u)
    then have "u = v" using Cons.prems by simp
    then obtain post where "is_semver v" "c # cs = v @ post"
      using match_here_sound[OF Some] by blast
    then have "is_semver v \<and> c # cs = [] @ v @ post" by simp
    then show ?thesis by blast
  next
    case None
    then have "match_semver cs = Some v" using Cons.prems by simp
    from Cons.IH[OF this] obtain pre post where "is_semver v" "cs = pre @ v @ post" by blast
    then have "is_semver v \<and> c # cs = (c # pre) @ v @ post" by simp
    then show ?thesis by blast
  qed
qed

lemma split_digits:
  assumes "\<forall>x\<in>set a. is_digit x"
  shows "takeWhile is_digit (a @ CHR ''.'' # rest) = a \<and>
         dropWhile is_digit (a @ CHR ''.'' # rest) = CHR ''.'' # rest"
  using assms not_digit_dot by simp

lemma match_here_complete:
  assumes "is_semver v"
  shows "match_here (v @ post) \<noteq> None"
proof -
  from assms obtain a b c where v: "v = a @ ''.'' @ b @ ''.'' @ c" and ne: "a \<noteq> []" "b \<noteq> []" "c \<noteq> []"
    and d: "\<forall>x\<in>set a. is_digit x" "\<forall>x\<in>set b. is_digit x" "\<forall>x\<in>set c. is_digit x"
    unfolding is_semver_def by auto
  have s: "v @ post = a @ CHR ''.'' # (b @ CHR ''.'' # (c @ post))" using v by simp
  have 1: "takeWhile is_digit (v @ post) = a"
    "dropWhile is_digit (v @ post) = CHR ''.'' # (b @ CHR ''.'' # (c @ post))"
    unfolding s using split_digits[OF d(1)] by simp_all
  have 2: "takeWhile is_digit (b @ CHR ''.'' # (c @ post)) = b"
    "dropWhile is_digit (b @ CHR ''.'' # (c @ post)) = CHR ''.'' # (c @ post)"
    using split_digits[OF d(2)] by simp_all
  have 3: "takeWhile is_digit (c @ post) = c @ takeWhile is_digit post"
    using d(3) by simp
  show ?thesis using 1 2 3 ne by (simp add: match_here_def Let_def)
qed

lemma match_semver_complete:
  "is_semver v \<Longrightarrow> match_semver (pre @ v @ post) \<noteq> None"
proof (induction pre)
  case Nil
  obtain c cs where vp: "v @ post = c # cs"
    using Nil by (cases "v @ post") (auto simp: is_semver_def)
  then show ?case using match_here_complete[OF Nil, of post]
    by (auto split: option.splits)
next
  case (Cons p pre)
  then show ?case by (auto split: option.splits)
qed

lemma match_semver_None: "match_semver k = None \<longleftrightarrow> \<not> has_semver k"
proof
  assume "match_semver k = None"
  then show "\<not> has_semver k"
    using match_semver_complete unfolding has_semver_def by fastforce
next
  assume "\<not> has_semver k"
  then show "match_semver k = None"
    using match_semver_sound[of k] unfolding has_semver_def
    by (cases "match_semver k") auto
qed

lemma firmware_observer_files:
  "firmware_observer bucket_name (Inr Contents) =
    (case files_of Contents of
       [] \<Rightarrow> Response 404 [(''error'', ''No firmware found!'')]
     | file # rest \<Rightarrow>
        (case match_semver (Key file) of
           None \<Rightarrow> Response 404 [(''error'', ''No version found in filename!'')]
         | Some version \<Rightarrow>
            Response 200 [(''version'', version),
                          (''url'', getPublicObjectURL bucket_name (Key file))]))"
  unfolding firmware_observer_def files_of_def[symmetric] Let_def
  by (cases "files_of Contents") (simp_all split: option.splits)

text \<open>
  C8, as the code has it. The endpoint answers from the first file of the listing, a file
  being an entry whose key does not end with a slash: with no file, 404 "No firmware
  found!"; when the key of the first file has no semantic version in it, 404 "No version
  found in filename!"; else 200 with a semantic version that occurs in that key and the
  public URL of that key. When the listing fails it answers 500.
\<close>

theorem firmware_first_listed:
  "firmware_observer bucket_name (Inl e) = Response 500 [(''error'', ''Failed to fetch firmware'')] \<and>
   (files_of Contents = [] \<longrightarrow>
      firmware_observer bucket_name (Inr Contents) = Response 404 [(''error'', ''No firmware found!'')]) \<and>
   (files_of Contents = file # rest \<and> \<not> has_semver (Key file) \<longrightarrow>
      firmware_observer bucket_name (Inr Contents) =
        Response 404 [(''error'', ''No version found in filename!'')]) \<and>
   (files_of Contents = file # rest \<and> has_semver (Key file) \<longrightarrow>
      (\<exists>version pre post.
         firmware_observer bucket_name (Inr Contents) =
           Response 200 [(''version'', version),
                         (''url'', ''https://'' @ env_string bucket_name @
                                   ''.fra1.digitaloceanspaces.com/'' @ Key file)] \<and>
         is_semver version \<and> Key file = pre @ version @ post))"
proof -
  have 1: "firmware_observer bucket_name (Inl e) =
      Response 500 [(''error'', ''Failed to fetch firmware'')]"
    by (simp add: firmware_observer_def)
  have 2: "files_of Contents = [] \<longrightarrow>
      firmware_observer bucket_name (Inr Contents) = Response 404 [(''error'', ''No firmware found!'')]"
    by (simp add: firmware_observer_files)
  have 3: "files_of Contents = file # rest \<and> \<not> has_semver (Key file) \<longrightarrow>
      firmware_observer bucket_name (Inr Contents) =
        Response 404 [(''error'', ''No version found in filename!'')]"
    using match_semver_None[of "Key file"] by (auto simp: firmware_observer_files)
  have 4: "files_of Contents = file # rest \<and> has_semver (Key file) \<longrightarrow>
      (\<exists>version pre post.
         firmware_observer bucket_name (Inr Contents) =
           Response 200 [(''version'', version),
                         (''url'', ''https://'' @ env_string bucket_name @
                                   ''.fra1.digitaloceanspaces.com/'' @ Key file)] \<and>
         is_semver version \<and> Key file = pre @ version @ post)"
  proof
    assume a: "files_of Contents = file # rest \<and> has_semver (Key file)"
    then obtain v where v: "match_semver (Key file) = Some v"
      using match_semver_None[of "Key file"] by (cases "match_semver (Key file)") auto
    from match_semver_sound[OF v] obtain pre post where
      p: "is_semver v" "Key file = pre @ v @ post" by blast
    have "firmware_observer bucket_name (Inr Contents) =
           Response 200 [(''version'', v),
                         (''url'', ''https://'' @ env_string bucket_name @
                                   ''.fra1.digitaloceanspaces.com/'' @ Key file)]"
      using a v by (simp add: firmware_observer_files getPublicObjectURL_def s3Region_def s3Domain_def)
    then show "\<exists>version pre post.
         firmware_observer bucket_name (Inr Contents) =
           Response 200 [(''version'', version),
                         (''url'', ''https://'' @ env_string bucket_name @
                                   ''.fra1.digitaloceanspaces.com/'' @ Key file)] \<and>
         is_semver version \<and> Key file = pre @ version @ post"
      using p by blast
  qed
  show ?thesis by (intro conjI) (rule 1 2 3 4)+
qed

lemma match_old_firmware: "match_semver (Key old_firmware) = Some ''1.0.0''"
  by (simp add: old_firmware_def match_here_def is_digit_def Let_def)

text \<open>
  C8 as stated fails when the first file of the listing is not the newest: the answer
  names the version and the URL of the older object.
\<close>

theorem firmware_counterexample:
  "newest [old_firmware, new_firmware] new_firmware \<and>
   \<not> newest [old_firmware, new_firmware] old_firmware \<and>
   firmware_observer (Some ''bucket'') (Inr (Some [old_firmware, new_firmware])) =
     Response 200 [(''version'', ''1.0.0''),
       (''url'', ''https://bucket.fra1.digitaloceanspaces.com/rootprivacy/firmware/observer/observer-1.0.0.bin'')]"
proof -
  have f: "files_of (Some [old_firmware, new_firmware]) = [old_firmware, new_firmware]"
    by (simp add: files_of_def ends_with_slash_def old_firmware_def new_firmware_def)
  have n: "newest [old_firmware, new_firmware] new_firmware"
    "\<not> newest [old_firmware, new_firmware] old_firmware"
    by (simp_all add: newest_def old_firmware_def new_firmware_def)
  have "firmware_observer (Some ''bucket'') (Inr (Some [old_firmware, new_firmware])) =
     Response 200 [(''version'', ''1.0.0''),
       (''url'', ''https://bucket.fra1.digitaloceanspaces.com/rootprivacy/firmware/observer/observer-1.0.0.bin'')]"
    using match_old_firmware
    by (simp add: firmware_observer_files f getPublicObjectURL_def s3Region_def s3Domain_def
        env_string_def) (simp add: old_firmware_def)
  then show ?thesis using n by simp
qed

theorem firmware_first_listed_witness:
  "files_of (Some [old_firmware, new_firmware]) = old_firmware # [new_firmware] \<and>
   has_semver (Key old_firmware) \<and>
   firmware_observer (Some ''bucket'') (Inr (Some [old_firmware, new_firmware])) =
     Response 200 [(''version'', ''1.0.0''),
       (''url'', ''https://bucket.fra1.digitaloceanspaces.com/'' @ Key old_firmware)] \<and>
   files_of (Some [\<lparr>Key = ''rootprivacy/firmware/observer/'', LastModified = 5\<rparr>]) = [] \<and>
   firmware_observer (Some ''bucket'')
      (Inr (Some [\<lparr>Key = ''rootprivacy/firmware/observer/'', LastModified = 5\<rparr>])) =
     Response 404 [(''error'', ''No firmware found!'')] \<and>
   files_of (Some [\<lparr>Key = ''rootprivacy/firmware/observer/notes.txt'', LastModified = 5\<rparr>,
                   new_firmware]) =
     \<lparr>Key = ''rootprivacy/firmware/observer/notes.txt'', LastModified = 5\<rparr> # [new_firmware] \<and>
   firmware_observer (Some ''bucket'')
      (Inr (Some [\<lparr>Key = ''rootprivacy/firmware/observer/notes.txt'', LastModified = 5\<rparr>,
                  new_firmware])) =
     Response 404 [(''error'', ''No version found in filename!'')]"
proof -
  let ?dir = "\<lparr>Key = ''rootprivacy/firmware/observer/'', LastModified = 5\<rparr>"
  let ?notes = "\<lparr>Key = ''rootprivacy/firmware/observer/notes.txt'', LastModified = 5\<rparr>"
  have f1: "files_of (Some [old_firmware, new_firmware]) = old_firmware # [new_firmware]"
    by (simp add: files_of_def ends_with_slash_def old_firmware_def new_firmware_def)
  have f2: "files_of (Some [?dir]) = []"
    by (simp add: files_of_def ends_with_slash_def)
  have f3: "files_of (Some [?notes, new_firmware]) = ?notes # [new_firmware]"
    by (simp add: files_of_def ends_with_slash_def new_firmware_def)
  have h1: "has_semver (Key old_firmware)"
    using match_semver_None[of "Key old_firmware"] match_old_firmware by simp
  have "match_semver (Key ?notes) = None"
    by (simp add: match_here_def is_digit_def Let_def)
  then have h3: "\<not> has_semver (Key ?notes)" using match_semver_None by blast
  note a = firmware_first_listed[of "Some ''bucket''" SyntaxError "Some [old_firmware, new_firmware]"
      old_firmware "[new_firmware]"]
  note b = firmware_first_listed[of "Some ''bucket''" SyntaxError "Some [?dir]" old_firmware "[]"]
  note c = firmware_first_listed[of "Some ''bucket''" SyntaxError "Some [?notes, new_firmware]"
      ?notes "[new_firmware]"]
  have r1: "firmware_observer (Some ''bucket'') (Inr (Some [old_firmware, new_firmware])) =
     Response 200 [(''version'', ''1.0.0''),
       (''url'', ''https://bucket.fra1.digitaloceanspaces.com/'' @ Key old_firmware)]"
    using a f1 h1 match_old_firmware
    by (auto simp: firmware_observer_files env_string_def)
  have r2: "firmware_observer (Some ''bucket'') (Inr (Some [?dir])) =
     Response 404 [(''error'', ''No firmware found!'')]"
    using b f2 by blast
  have r3: "firmware_observer (Some ''bucket'') (Inr (Some [?notes, new_firmware])) =
     Response 404 [(''error'', ''No version found in filename!'')]"
    using c f3 h3 by blast
  show ?thesis using f1 h1 r1 f2 r2 f3 r3 by blast
qed

end
